theory Spec2Isabelle
  imports Main "HOL-Library.Word"
begin

section \<open>Data model of pevents.cpp\<close>

text \<open>
  The library emulates WIN32 events on top of pthread mutexes and condition variables.
  Objects live on the heap and are referred to by pointer. The model keeps two heaps
  as lists: a pointer is an index, \<open>new\<close> appends, \<open>delete\<close> of a wait record leaves
  \<open>None\<close> in its cell, so that a later access through a stale pointer is a fault of the
  model and not an unspecified value.

  Every API call is performed by a thread, named by a number. Calls run atomically
  from one condition wait to the next; what other threads do while the caller is
  blocked in a condition wait is supplied as data (the wake-ups, see below).
\<close>

type_synonym tid = nat

text \<open>\<open>struct neosmart_wfmo_t_\<close> (lines 19-37). \<open>Mutex\<close> holds the owner of the
  pthread mutex. \<open>Status\<close> is the union of the two \<open>int\<close> members \<open>FiredEvent\<close>
  and \<open>EventsLeft\<close>: one cell, read under either name. The \<open>int\<close> fields are
  modelled as unbounded integers; they stay within the number of events of one call.\<close>

record neosmart_wfmo_t =
  Mutex :: "tid option"
  Status :: int
  StillWaiting :: bool
  RefCount :: int
  WaitAll :: bool

text \<open>\<open>struct neosmart_wfmo_info_t_\<close> (lines 40-44); \<open>Waiter\<close> is a pointer.\<close>

record neosmart_wfmo_info_t =
  Waiter :: nat
  WaitIndex :: int

text \<open>\<open>struct neosmart_event_t_\<close> (lines 48-57), compiled with WFMO. The mutex of
  an event is called \<open>EvMutex\<close> here, since a field name denotes one record only.\<close>

record neosmart_event_t =
  AutoReset :: bool
  EvMutex :: "tid option"
  State :: bool
  RegisteredWaits :: "neosmart_wfmo_info_t list"

text \<open>\<open>timeval\<close> and \<open>timespec\<close> on an LP64 platform: 64-bit fields, kept as the bit
  patterns that the casts to \<open>uint64_t\<close> read. The fields of \<open>timespec\<close> are called
  \<open>ts_sec\<close> and \<open>ts_nsec\<close>.\<close>

record timeval =
  tv_sec :: "64 word"
  tv_usec :: "64 word"

record timespec =
  ts_sec :: "64 word"
  ts_nsec :: "64 word"

text \<open>The calls to the pthread library that leave no mark on the heaps are recorded
  in a trace, in program order. \<open>MutexDestroy t w o\<close> is \<open>pthread_mutex_destroy\<close>
  called by thread \<open>t\<close> on the mutex of wait record \<open>w\<close> whose owner at that moment
  was \<open>o\<close>.\<close>

datatype cvar = EventCV nat | WfmoCV nat

datatype pcall =
    CondWait tid cvar
  | CondTimedWait tid cvar timespec
  | CondSignal tid cvar
  | CondBroadcast tid cvar
  | MutexDestroy tid nat "tid option"
  | CondDestroy tid nat

record world =
  events :: "neosmart_event_t list"
  waiters :: "neosmart_wfmo_t option list"
  trace :: "pcall list"

text \<open>What can keep a call from returning normally: a mutex that is held and never
  released (\<open>MutexBusy\<close>), a condition wait with no wake-up left (\<open>NeverWoken\<close>), an
  access through a pointer to nothing (\<open>Dangling\<close>), a read beyond the event array
  (\<open>OutOfBounds\<close>), a failed \<open>assert\<close> (\<open>AssertFailed\<close>).\<close>

datatype fault = MutexBusy | NeverWoken | Dangling | OutOfBounds | AssertFailed

definition rbind :: "fault + 'a \<Rightarrow> ('a \<Rightarrow> fault + 'b) \<Rightarrow> fault + 'b" where
  "rbind m f = (case m of Inl e \<Rightarrow> Inl e | Inr x \<Rightarrow> f x)"

text \<open>\<open>ETIMEDOUT\<close> of \<open>errno.h\<close>; its value on Linux.\<close>

definition ETIMEDOUT :: int where
  "ETIMEDOUT = 110"

section \<open>Heap access and pthread primitives\<close>

definition get_event :: "nat \<Rightarrow> world \<Rightarrow> fault + neosmart_event_t" where
  "get_event e s = (if e < length (events s) then Inr (events s ! e) else Inl Dangling)"

definition put_event :: "nat \<Rightarrow> neosmart_event_t \<Rightarrow> world \<Rightarrow> world" where
  "put_event e ev s = s\<lparr>events := (events s)[e := ev]\<rparr>"

definition get_wfmo :: "nat \<Rightarrow> world \<Rightarrow> fault + neosmart_wfmo_t" where
  "get_wfmo w s =
     (if w < length (waiters s)
      then (case waiters s ! w of None \<Rightarrow> Inl Dangling | Some r \<Rightarrow> Inr r)
      else Inl Dangling)"

definition put_wfmo :: "nat \<Rightarrow> neosmart_wfmo_t \<Rightarrow> world \<Rightarrow> world" where
  "put_wfmo w r s = s\<lparr>waiters := (waiters s)[w := Some r]\<rparr>"

definition delete_wfmo :: "nat \<Rightarrow> world \<Rightarrow> world" where
  "delete_wfmo w s = s\<lparr>waiters := (waiters s)[w := None]\<rparr>"

definition log_call :: "pcall \<Rightarrow> world \<Rightarrow> world" where
  "log_call c s = s\<lparr>trace := trace s @ [c]\<rparr>"

text \<open>\<open>pthread_mutex_lock\<close> and \<open>pthread_mutex_unlock\<close> on the mutex of an event.
  Locking a held mutex does not return.\<close>

definition lock_event :: "tid \<Rightarrow> nat \<Rightarrow> world \<Rightarrow> fault + world" where
  "lock_event t e s =
     rbind (get_event e s) (\<lambda>ev.
       if EvMutex ev = None then Inr (put_event e (ev\<lparr>EvMutex := Some t\<rparr>) s)
       else Inl MutexBusy)"

definition unlock_event :: "nat \<Rightarrow> world \<Rightarrow> fault + world" where
  "unlock_event e s =
     rbind (get_event e s) (\<lambda>ev. Inr (put_event e (ev\<lparr>EvMutex := None\<rparr>) s))"

text \<open>The same on the mutex of a wait record.\<close>

definition lock_wfmo :: "tid \<Rightarrow> nat \<Rightarrow> world \<Rightarrow> fault + world" where
  "lock_wfmo t w s =
     rbind (get_wfmo w s) (\<lambda>r.
       if Mutex r = None then Inr (put_wfmo w (r\<lparr>Mutex := Some t\<rparr>) s)
       else Inl MutexBusy)"

definition unlock_wfmo :: "nat \<Rightarrow> world \<Rightarrow> fault + world" where
  "unlock_wfmo w s =
     rbind (get_wfmo w s) (\<lambda>r. Inr (put_wfmo w (r\<lparr>Mutex := None\<rparr>) s))"

text \<open>\<open>neosmart_wfmo_t_::Destroy\<close> (lines 32-36): both pthread objects of the record
  are destroyed; the record itself is untouched.\<close>

definition Destroy :: "tid \<Rightarrow> nat \<Rightarrow> world \<Rightarrow> fault + world" where
  "Destroy t w s =
     rbind (get_wfmo w s) (\<lambda>r.
       Inr (log_call (CondDestroy t w) (log_call (MutexDestroy t w (Mutex r)) s)))"

section \<open>SetEvent and ResetEvent\<close>

text \<open>Lines 398-406 and 470-486: the signaler has locked the record of a departed
  waiter and taken its reference. The last reference destroys and deletes the record,
  any other unlocks it.\<close>

definition drop_departed :: "tid \<Rightarrow> nat \<Rightarrow> world \<Rightarrow> fault + world" where
  "drop_departed t w s =
     rbind (get_wfmo w s) (\<lambda>r.
       if RefCount r = 0
       then rbind (Destroy t w s) (\<lambda>s'. Inr (delete_wfmo w s'))
       else unlock_wfmo w s)"

text \<open>Lines 413-425 and 490-502: the update of the record of a waiter that is still
  waiting. The \<open>assert\<close> is kept.\<close>

definition notify_waiter :: "neosmart_wfmo_info_t \<Rightarrow> world \<Rightarrow> fault + world" where
  "notify_waiter i s =
     rbind (get_wfmo (Waiter i) s) (\<lambda>r.
       if WaitAll r
       then (if Status r - 1 \<ge> 0
             then Inr (put_wfmo (Waiter i) (r\<lparr>Status := Status r - 1\<rparr>) s)
             else Inl AssertFailed)
       else Inr (put_wfmo (Waiter i) (r\<lparr>Status := WaitIndex i, StillWaiting := False\<rparr>) s))"

text \<open>Lines 394-395 and 458-467: lock the record and take the reference of this
  registration.\<close>

definition take_reference :: "tid \<Rightarrow> nat \<Rightarrow> world \<Rightarrow> fault + world" where
  "take_reference t w s =
     rbind (lock_wfmo t w s) (\<lambda>s1.
     rbind (get_wfmo w s1) (\<lambda>r.
       Inr (put_wfmo w (r\<lparr>RefCount := RefCount r - 1\<rparr>) s1)))"

definition pop_front :: "nat \<Rightarrow> world \<Rightarrow> fault + world" where
  "pop_front e s =
     rbind (get_event e s) (\<lambda>ev.
       Inr (put_event e (ev\<lparr>RegisteredWaits := tl (RegisteredWaits ev)\<rparr>) s))"

definition set_State :: "nat \<Rightarrow> bool \<Rightarrow> world \<Rightarrow> fault + world" where
  "set_State e b s =
     rbind (get_event e s) (\<lambda>ev. Inr (put_event e (ev\<lparr>State := b\<rparr>) s))"

text \<open>The \<open>while\<close> loop of the auto-reset branch (lines 391-433). The second argument
  is the queue as the loop sees it: the caller passes \<open>event->RegisteredWaits\<close>, and
  every \<open>pop_front\<close> on the heap goes with the step to the tail. The loop returns
  \<open>Some result\<close> when it left the function by the \<open>return\<close> of line 432, and \<open>None\<close>
  when the queue ran empty.\<close>

fun walk_auto :: "tid \<Rightarrow> nat \<Rightarrow> neosmart_wfmo_info_t list \<Rightarrow> world \<Rightarrow> fault + (int option \<times> world)" where
  "walk_auto t e [] s = Inr (None, s)"
| "walk_auto t e (i # q) s =
     rbind (take_reference t (Waiter i) s) (\<lambda>s1.
     rbind (get_wfmo (Waiter i) s1) (\<lambda>r.
       if \<not> StillWaiting r
       then rbind (drop_departed t (Waiter i) s1) (\<lambda>s2.
            rbind (pop_front e s2) (\<lambda>s3.
              walk_auto t e q s3))
       else rbind (set_State e False s1) (\<lambda>s2.
            rbind (notify_waiter i s2) (\<lambda>s3.
            rbind (unlock_wfmo (Waiter i) s3) (\<lambda>s4.
            rbind (pop_front e (log_call (CondSignal t (WfmoCV (Waiter i))) s4)) (\<lambda>s5.
            rbind (unlock_event e s5) (\<lambda>s6.
              Inr (Some 0, s6))))))))"

text \<open>The \<open>for\<close> loop of the manual-reset branch (lines 455-506), over the entries of
  the queue, which the loop does not change.\<close>

fun walk_manual :: "tid \<Rightarrow> neosmart_wfmo_info_t list \<Rightarrow> world \<Rightarrow> fault + world" where
  "walk_manual t [] s = Inr s"
| "walk_manual t (info # q) s =
     rbind (take_reference t (Waiter info) s) (\<lambda>s1.
     rbind (get_wfmo (Waiter info) s1) (\<lambda>r.
       if \<not> StillWaiting r
       then rbind (drop_departed t (Waiter info) s1) (\<lambda>s2.
              walk_manual t q s2)
       else rbind (notify_waiter info s1) (\<lambda>s2.
            rbind (unlock_wfmo (Waiter info) s2) (\<lambda>s3.
              walk_manual t q (log_call (CondSignal t (WfmoCV (Waiter info))) s3)))))"

text \<open>\<open>SetEvent\<close> (lines 377-522). The pthread calls on mutexes and condition
  variables return 0 here; the result is the one of the last signal or broadcast,
  or of the initial lock when an auto-reset event ends non-signaled at line 521.\<close>

definition SetEvent :: "tid \<Rightarrow> nat \<Rightarrow> world \<Rightarrow> fault + (int \<times> world)" where
  "SetEvent t e s =
     rbind (lock_event t e s) (\<lambda>s1.
     rbind (set_State e True s1) (\<lambda>s2.
     rbind (get_event e s2) (\<lambda>ev.
       if AutoReset ev
       then rbind (walk_auto t e (RegisteredWaits ev) s2) (\<lambda>(ret, s3).
              case ret of
                Some result \<Rightarrow> Inr (result, s3)
              | None \<Rightarrow>
                  rbind (get_event e s3) (\<lambda>ev3.
                    if State ev3
                    then rbind (unlock_event e s3) (\<lambda>s4.
                           Inr (0, log_call (CondSignal t (EventCV e)) s4))
                    else Inr (0, s3)))
       else rbind (walk_manual t (RegisteredWaits ev) s2) (\<lambda>s3.
            rbind (get_event e s3) (\<lambda>ev3.
            rbind (unlock_event e (put_event e (ev3\<lparr>RegisteredWaits := []\<rparr>) s3)) (\<lambda>s4.
              Inr (0, log_call (CondBroadcast t (EventCV e)) s4)))))))"

text \<open>\<open>ResetEvent\<close> (lines 524-545).\<close>

definition ResetEvent :: "tid \<Rightarrow> nat \<Rightarrow> world \<Rightarrow> fault + (int \<times> world)" where
  "ResetEvent t e s =
     rbind (lock_event t e s) (\<lambda>s1.
     rbind (set_State e False s1) (\<lambda>s2.
     rbind (unlock_event e s2) (\<lambda>s3.
       Inr (0, s3))))"

section \<open>Condition waits and the environment\<close>

text \<open>A thread blocked in \<open>pthread_cond_wait\<close> or \<open>pthread_cond_timedwait\<close> has
  released the mutex; other threads run until the wait returns. A wake-up is the
  result code of the wait together with the calls that other threads completed in
  the meantime. A call is given the list of the wake-ups that its successive waits
  will meet; a wait that finds the list empty never returns.\<close>

datatype action = DoSetEvent tid nat | DoResetEvent tid nat

type_synonym wakeup = "int \<times> action list"

fun perform :: "action \<Rightarrow> world \<Rightarrow> fault + world" where
  "perform (DoSetEvent t e) s = rbind (SetEvent t e s) (\<lambda>(result, s'). Inr s')"
| "perform (DoResetEvent t e) s = rbind (ResetEvent t e s) (\<lambda>(result, s'). Inr s')"

fun run_env :: "action list \<Rightarrow> world \<Rightarrow> fault + world" where
  "run_env [] s = Inr s"
| "run_env (a # as) s = rbind (perform a s) (\<lambda>s'. run_env as s')"

text \<open>The wait on the condition variable of an event, with the mutex of the event,
  and the wait on the condition variable of a wait record, with the mutex of the
  record. With a deadline the call is \<open>pthread_cond_timedwait\<close>.\<close>

definition wait_call :: "tid \<Rightarrow> cvar \<Rightarrow> timespec option \<Rightarrow> pcall" where
  "wait_call t c ts = (case ts of None \<Rightarrow> CondWait t c | Some d \<Rightarrow> CondTimedWait t c d)"

definition cond_wait_event :: "tid \<Rightarrow> nat \<Rightarrow> timespec option \<Rightarrow> action list \<Rightarrow> world \<Rightarrow> fault + world" where
  "cond_wait_event t e ts acts s =
     rbind (unlock_event e (log_call (wait_call t (EventCV e) ts) s)) (\<lambda>s1.
     rbind (run_env acts s1) (\<lambda>s2.
       lock_event t e s2))"

definition cond_wait_wfmo :: "tid \<Rightarrow> nat \<Rightarrow> timespec option \<Rightarrow> action list \<Rightarrow> world \<Rightarrow> fault + world" where
  "cond_wait_wfmo t w ts acts s =
     rbind (unlock_wfmo w (log_call (wait_call t (WfmoCV w) ts) s)) (\<lambda>s1.
     rbind (run_env acts s1) (\<lambda>s2.
       lock_wfmo t w s2))"

section \<open>Deadlines\<close>

text \<open>Lines 107-110 and 301-304, in \<open>uint64_t\<close> arithmetic; \<open>tv\<close> is what
  \<open>gettimeofday\<close> returned.\<close>

definition abs_deadline :: "timeval \<Rightarrow> 64 word \<Rightarrow> timespec" where
  "abs_deadline tv milliseconds =
     (let nanoseconds = tv_sec tv * 1000 * 1000 * 1000 + milliseconds * 1000 * 1000
                          + tv_usec tv * 1000;
          sec = nanoseconds div 1000 div 1000 div 1000
      in \<lparr>ts_sec = sec, ts_nsec = nanoseconds - sec * 1000 * 1000 * 1000\<rparr>)"

text \<open>The timeout argument of the waits: no deadline for the sentinel
  \<open>(uint64_t) -1\<close>.\<close>

definition deadline_of :: "timeval \<Rightarrow> 64 word \<Rightarrow> timespec option" where
  "deadline_of tv milliseconds =
     (if milliseconds \<noteq> - 1 then Some (abs_deadline tv milliseconds) else None)"

section \<open>WaitForEvent\<close>

text \<open>The \<open>do ... while\<close> loop of lines 113-125: wait, then go on while the wait
  succeeded and the event is not signaled.\<close>

fun wait_loop :: "tid \<Rightarrow> nat \<Rightarrow> timespec option \<Rightarrow> wakeup list \<Rightarrow> world \<Rightarrow> fault + (int \<times> world)" where
  "wait_loop t e ts [] s = Inl NeverWoken"
| "wait_loop t e ts ((result, acts) # ws) s =
     rbind (cond_wait_event t e ts acts s) (\<lambda>s1.
     rbind (get_event e s1) (\<lambda>ev.
       if result = 0 \<and> \<not> State ev then wait_loop t e ts ws s1
       else Inr (result, s1)))"

text \<open>\<open>UnlockedWaitForEvent\<close> (lines 90-144). \<open>tv\<close> is the reading of the clock that
  \<open>gettimeofday\<close> gives at line 105.\<close>

definition UnlockedWaitForEvent ::
  "tid \<Rightarrow> nat \<Rightarrow> 64 word \<Rightarrow> timeval \<Rightarrow> wakeup list \<Rightarrow> world \<Rightarrow> fault + (int \<times> world)" where
  "UnlockedWaitForEvent t e milliseconds tv wakeups s =
     rbind (get_event e s) (\<lambda>ev.
       if \<not> State ev
       then (if milliseconds = 0 then Inr (ETIMEDOUT, s)
             else rbind (wait_loop t e (deadline_of tv milliseconds) wakeups s) (\<lambda>(result, s1).
                  rbind (get_event e s1) (\<lambda>ev1.
                    if result = 0 \<and> AutoReset ev1
                    then rbind (set_State e False s1) (\<lambda>s2. Inr (result, s2))
                    else Inr (result, s1))))
       else if AutoReset ev
       then rbind (set_State e False s) (\<lambda>s1. Inr (0, s1))
       else Inr (0, s))"

text \<open>\<open>WaitForEvent\<close> (lines 146-169).\<close>

definition WaitForEvent ::
  "tid \<Rightarrow> nat \<Rightarrow> 64 word \<Rightarrow> timeval \<Rightarrow> wakeup list \<Rightarrow> world \<Rightarrow> fault + (int \<times> world)" where
  "WaitForEvent t e milliseconds tv wakeups s =
     rbind (lock_event t e s) (\<lambda>s1.
     rbind (UnlockedWaitForEvent t e milliseconds tv wakeups s1) (\<lambda>(result, s2).
     rbind (unlock_event e s2) (\<lambda>s3.
       Inr (result, s3))))"

section \<open>WaitForMultipleEvents\<close>

text \<open>The registration loop of lines 231-286, \<open>for(int i = 0; i < count; ++i)\<close>:
  \<open>i\<close> is the index and the next argument the number of rounds left. The event
  array is a list, and reading it beyond its end is a fault. The zero-timeout check
  reads neither the clock nor a wake-up. The loop returns \<open>done\<close>; the store to
  \<open>waitIndex\<close> at line 266 is overwritten at line 332 and left out.\<close>

fun register_loop ::
  "tid \<Rightarrow> nat list \<Rightarrow> nat \<Rightarrow> bool \<Rightarrow> timeval \<Rightarrow> nat \<Rightarrow> nat \<Rightarrow> world \<Rightarrow> fault + (bool \<times> world)" where
  "register_loop t evs w waitAll tv i 0 s = Inr (False, s)"
| "register_loop t evs w waitAll tv i (Suc n) s =
     (if i < length evs
      then rbind (lock_event t (evs ! i) s) (\<lambda>s1.
           rbind (UnlockedWaitForEvent t (evs ! i) 0 tv [] s1) (\<lambda>(result, s2).
             if result = 0
             then rbind (unlock_event (evs ! i) s2) (\<lambda>s3.
                  rbind (get_wfmo w s3) (\<lambda>r.
                    if waitAll
                    then (if Status r - 1 \<ge> 0
                          then register_loop t evs w waitAll tv (Suc i) n
                                 (put_wfmo w (r\<lparr>Status := Status r - 1\<rparr>) s3)
                          else Inl AssertFailed)
                    else Inr (True, put_wfmo w (r\<lparr>Status := int i\<rparr>) s3)))
             else rbind (get_event (evs ! i) s2) (\<lambda>ev.
                  rbind (get_wfmo w s2) (\<lambda>r.
                  rbind (unlock_event (evs ! i)
                           (put_wfmo w (r\<lparr>RefCount := RefCount r + 1\<rparr>)
                             (put_event (evs ! i)
                                (ev\<lparr>RegisteredWaits :=
                                      RegisteredWaits ev @ [\<lparr>Waiter = w, WaitIndex = int i\<rparr>]\<rparr>) s2)))
                    (\<lambda>s3. register_loop t evs w waitAll tv (Suc i) n s3)))))
      else Inl OutOfBounds)"

text \<open>The \<open>while(!done)\<close> loop of lines 308-330, entered with \<open>done\<close> false.\<close>

fun wfmo_loop ::
  "tid \<Rightarrow> nat \<Rightarrow> bool \<Rightarrow> timespec option \<Rightarrow> int \<Rightarrow> wakeup list \<Rightarrow> world \<Rightarrow> fault + (int \<times> world)" where
  "wfmo_loop t w waitAll ts result wakeups s =
     rbind (get_wfmo w s) (\<lambda>r.
       if (waitAll \<and> Status r = 0) \<or> (\<not> waitAll \<and> Status r \<noteq> - 1)
       then Inr (result, s)
       else (case wakeups of
               [] \<Rightarrow> Inl NeverWoken
             | (rc, acts) # ws \<Rightarrow>
                 rbind (cond_wait_wfmo t w ts acts s) (\<lambda>s1.
                   if rc \<noteq> 0 then Inr (rc, s1)
                   else wfmo_loop t w waitAll ts rc ws s1)))"

text \<open>Lines 332-354: the waiter leaves. The result is the pair of the return value
  and of the out-parameter \<open>waitIndex\<close>.\<close>

definition finalize :: "tid \<Rightarrow> nat \<Rightarrow> int \<Rightarrow> world \<Rightarrow> fault + (int \<times> int \<times> world)" where
  "finalize t w result s =
     rbind (get_wfmo w s) (\<lambda>r.
       let waitIndex = Status r;
           s1 = put_wfmo w (r\<lparr>StillWaiting := False, RefCount := RefCount r - 1\<rparr>) s
       in if RefCount r - 1 = 0
          then rbind (Destroy t w s1) (\<lambda>s2. Inr (result, waitIndex, delete_wfmo w s2))
          else rbind (unlock_wfmo w s1) (\<lambda>s2. Inr (result, waitIndex, s2)))"

text \<open>Lines 180-218: the new record, locked by its waiter. Its pointer is the next
  free cell of the heap.\<close>

definition new_wfmo :: "tid \<Rightarrow> bool \<Rightarrow> int \<Rightarrow> world \<Rightarrow> world" where
  "new_wfmo t waitAll count s =
     s\<lparr>waiters := waiters s @
         [Some \<lparr>Mutex = Some t, Status = (if waitAll then count else - 1),
                StillWaiting = True, RefCount = 1, WaitAll = waitAll\<rparr>]\<rparr>"

text \<open>\<open>WaitForMultipleEvents\<close> (lines 178-355), the overload with the out-parameter.
  \<open>result\<close> is 0 after the registration loop, the pthread calls on mutexes
  returning 0.\<close>

definition WaitForMultipleEvents ::
  "tid \<Rightarrow> nat list \<Rightarrow> int \<Rightarrow> bool \<Rightarrow> 64 word \<Rightarrow> timeval \<Rightarrow> wakeup list \<Rightarrow> world
     \<Rightarrow> fault + (int \<times> int \<times> world)" where
  "WaitForMultipleEvents t evs count waitAll milliseconds tv wakeups s =
     (let w = length (waiters s) in
      rbind (register_loop t evs w waitAll tv 0 (nat count) (new_wfmo t waitAll count s))
        (\<lambda>(done, s1).
      rbind (if \<not> done
             then (if milliseconds = 0 then Inr (ETIMEDOUT, s1)
                   else wfmo_loop t w waitAll (deadline_of tv milliseconds) 0 wakeups s1)
             else Inr (0, s1))
        (\<lambda>(result, s2). finalize t w result s2)))"

section \<open>CreateEvent\<close>

text \<open>\<open>CreateEvent\<close> (lines 59-88): the new event is the next free cell of the heap
  of events. The result is the pointer.\<close>

definition CreateEvent :: "tid \<Rightarrow> bool \<Rightarrow> bool \<Rightarrow> world \<Rightarrow> fault + (nat \<times> world)" where
  "CreateEvent t manualReset initialState s =
     (let event = length (events s);
          s1 = s\<lparr>events := events s @
                  [\<lparr>AutoReset = \<not> manualReset, EvMutex = None, State = False,
                    RegisteredWaits = []\<rparr>]\<rparr>
      in rbind (SetEvent t event s1) (\<lambda>(result, s2). Inr (event, s2)))"

definition world0 :: world where
  "world0 = \<lparr>events = [], waiters = [], trace = []\<rparr>"

section \<open>DestroyEvent\<close>

text \<open>\<open>DestroyEvent\<close> (lines 358-375); the two pthread calls return 0, and the trace
  has no entry for the destruction of the primitives of an event. \<open>delete event\<close> ends
  the event with its members: the deque \<open>RegisteredWaits\<close> is destroyed, and the wait
  records that its registrations point to are not touched. The heap of events has no
  free cells: the model keeps the cell, with the deque empty, and says nothing of a
  later use of the released pointer.\<close>

definition DestroyEvent :: "tid \<Rightarrow> nat \<Rightarrow> world \<Rightarrow> fault + (int \<times> world)" where
  "DestroyEvent t e s =
     rbind (get_event e s) (\<lambda>ev. Inr (0, put_event e (ev\<lparr>RegisteredWaits := []\<rparr>) s))"

section \<open>Vocabulary of the properties\<close>

text \<open>The deadline that the specification asks for: the clock reading plus the
  timeout, in nanoseconds, as a natural number.\<close>

definition exact_ns :: "timeval \<Rightarrow> 64 word \<Rightarrow> nat" where
  "exact_ns tv milliseconds =
     unat (tv_sec tv) * 1000000000 + unat milliseconds * 1000000 + unat (tv_usec tv) * 1000"

text \<open>A manual-reset event that is signaled.\<close>

definition signaled_manual :: "nat \<Rightarrow> world \<Rightarrow> bool" where
  "signaled_manual e s \<longleftrightarrow>
     e < length (events s) \<and> \<not> AutoReset (events s ! e) \<and> State (events s ! e)"

text \<open>Between two states, the reset discipline of every event is the same, and the
  event \<open>e\<close>, if it was manual-reset and signaled, is still signaled.\<close>

definition keeps :: "nat \<Rightarrow> world \<Rightarrow> world \<Rightarrow> bool" where
  "keeps e s s' \<longleftrightarrow>
     map AutoReset (events s') = map AutoReset (events s)
     \<and> (e < length (events s) \<and> \<not> AutoReset (events s ! e) \<and> State (events s ! e)
          \<longrightarrow> State (events s' ! e))"

text \<open>No other thread calls \<open>ResetEvent\<close> on the event \<open>e\<close> during the waits.\<close>

fun resets :: "action \<Rightarrow> nat \<Rightarrow> bool" where
  "resets (DoResetEvent t e') e = (e' = e)"
| "resets (DoSetEvent t e') e = False"

definition no_reset :: "nat \<Rightarrow> wakeup list \<Rightarrow> bool" where
  "no_reset e wakeups = (\<forall>wk \<in> set wakeups. \<forall>a \<in> set (snd wk). \<not> resets a e)"

text \<open>Concrete states: a signaled manual-reset event and a non-signaled auto-reset
  event, and a reading of the clock.\<close>

definition ev_manual_set :: neosmart_event_t where
  "ev_manual_set = \<lparr>AutoReset = False, EvMutex = None, State = True, RegisteredWaits = []\<rparr>"

definition ev_auto_clear :: neosmart_event_t where
  "ev_auto_clear = \<lparr>AutoReset = True, EvMutex = None, State = False, RegisteredWaits = []\<rparr>"

definition world_two :: world where
  "world_two = \<lparr>events = [ev_manual_set, ev_auto_clear], waiters = [], trace = []\<rparr>"

definition clock0 :: timeval where
  "clock0 = \<lparr>tv_sec = 1700000000, tv_usec = 250000\<rparr>"

text \<open>The test of line 314: the multi-wait has what it waits for.\<close>

definition satisfied :: "bool \<Rightarrow> neosmart_wfmo_t \<Rightarrow> bool" where
  "satisfied waitAll r \<longleftrightarrow> (waitAll \<and> Status r = 0) \<or> (\<not> waitAll \<and> Status r \<noteq> - 1)"

text \<open>No other thread completes a call during the waits.\<close>

definition quiet :: "wakeup list \<Rightarrow> bool" where
  "quiet wakeups = (\<forall>wk \<in> set wakeups. snd wk = [])"

text \<open>The signaled flags of all events, in heap order.\<close>

definition states :: "world \<Rightarrow> bool list" where
  "states s = map State (events s)"



text \<open>A \<open>pthread_mutex_destroy\<close> in the trace was called by the thread that held the
  mutex.\<close>

fun locked_destroy :: "pcall \<Rightarrow> bool" where
  "locked_destroy (MutexDestroy t w holder) = (holder = Some t)"
| "locked_destroy (CondWait t c) = True"
| "locked_destroy (CondTimedWait t c d) = True"
| "locked_destroy (CondSignal t c) = True"
| "locked_destroy (CondBroadcast t c) = True"
| "locked_destroy (CondDestroy t w) = True"

text \<open>What a call adds to the trace and takes from the heap of wait records: the
  trace grows by \<open>d\<close>, every \<open>pthread_mutex_destroy\<close> in \<open>d\<close> is on a mutex held by its
  caller, no record disappears from the heap, and a record that is free after the call
  and was not before has such a destruction in \<open>d\<close>.\<close>

definition frees_locked :: "world \<Rightarrow> world \<Rightarrow> pcall list \<Rightarrow> bool" where
  "frees_locked s s' d \<longleftrightarrow>
     trace s' = trace s @ d \<and> list_all locked_destroy d
     \<and> length (waiters s) \<le> length (waiters s')
     \<and> (\<forall>w < length (waiters s'). waiters s' ! w = None \<longrightarrow>
           (w < length (waiters s) \<and> waiters s ! w = None)
           \<or> (\<exists>t. MutexDestroy t w (Some t) \<in> set d))"

definition frees_ok :: "world \<Rightarrow> world \<Rightarrow> bool" where
  "frees_ok s s' \<longleftrightarrow> (\<exists>d. frees_locked s s' d)"

text \<open>The thread \<open>t\<close> holds the mutex of the wait record \<open>w\<close>.\<close>

definition owned :: "tid \<Rightarrow> nat \<Rightarrow> world \<Rightarrow> bool" where
  "owned t w s \<longleftrightarrow> (\<exists>r. w < length (waiters s) \<and> waiters s ! w = Some r \<and> Mutex r = Some t)"

text \<open>A state in which a departed waiter has left its registration behind.\<close>

definition world_stale :: world where
  "world_stale =
     \<lparr>events = [ev_auto_clear\<lparr>RegisteredWaits := [\<lparr>Waiter = 0, WaitIndex = 0\<rparr>]\<rparr>],
      waiters = [Some \<lparr>Mutex = None, Status = - 1, StillWaiting = False, RefCount = 1,
                       WaitAll = False\<rparr>],
      trace = []\<rparr>"

text \<open>The registration \<open>j\<close> belongs to a waiter that has departed: its record is
  there and no longer waiting.\<close>

definition gone :: "world \<Rightarrow> neosmart_wfmo_info_t \<Rightarrow> bool" where
  "gone s j \<longleftrightarrow> (case get_wfmo (Waiter j) s of Inl f \<Rightarrow> False | Inr r \<Rightarrow> \<not> StillWaiting r)"

text \<open>The record of a waiter after a signaler has handed it the event of registration
  \<open>i\<close>: one reference less, the multi-wait update of lines 413-425, the mutex free.\<close>

definition notified :: "neosmart_wfmo_info_t \<Rightarrow> neosmart_wfmo_t \<Rightarrow> neosmart_wfmo_t" where
  "notified i r =
     (if WaitAll r then r\<lparr>Mutex := None, Status := Status r - 1, RefCount := RefCount r - 1\<rparr>
      else r\<lparr>Mutex := None, Status := WaitIndex i, StillWaiting := False,
             RefCount := RefCount r - 1\<rparr>)"

text \<open>The calls that wake a waiter.\<close>

fun is_signal :: "pcall \<Rightarrow> bool" where
  "is_signal (CondSignal t c) = True"
| "is_signal (CondBroadcast t c) = True"
| "is_signal (CondWait t c) = False"
| "is_signal (CondTimedWait t c d) = False"
| "is_signal (MutexDestroy t w holder) = False"
| "is_signal (CondDestroy t w) = False"

text \<open>Apart from the records in \<open>X\<close>, what a waiter reads in its record (\<open>Status\<close>,
  \<open>StillWaiting\<close>, \<open>WaitAll\<close>) is the same in every record that is still there.\<close>

definition obs_kept :: "nat set \<Rightarrow> world \<Rightarrow> world \<Rightarrow> bool" where
  "obs_kept X s s' \<longleftrightarrow>
     length (waiters s') = length (waiters s)
     \<and> (\<forall>w < length (waiters s'). w \<notin> X \<longrightarrow> (\<forall>r'. waiters s' ! w = Some r' \<longrightarrow>
           (\<exists>r. waiters s ! w = Some r \<and> Status r' = Status r
                \<and> StillWaiting r' = StillWaiting r \<and> WaitAll r' = WaitAll r)))"

text \<open>All events but \<open>e\<close> are the same.\<close>

definition others_same :: "nat \<Rightarrow> world \<Rightarrow> world \<Rightarrow> bool" where
  "others_same e s s' \<longleftrightarrow>
     length (events s') = length (events s)
     \<and> (\<forall>k < length (events s). k \<noteq> e \<longrightarrow> events s' ! k = events s ! k)"

text \<open>A stretch of the trace with no signal and no broadcast.\<close>

definition quiet_trace :: "pcall list \<Rightarrow> bool" where
  "quiet_trace d = (\<not> list_ex is_signal d)"

text \<open>An auto-reset event with three registrations: of a departed waiter, of a waiter
  for any event, and of a waiter for all events.\<close>

definition world_queue :: world where
  "world_queue =
     \<lparr>events = [ev_auto_clear\<lparr>RegisteredWaits :=
                   [\<lparr>Waiter = 0, WaitIndex = 0\<rparr>, \<lparr>Waiter = 1, WaitIndex = 3\<rparr>,
                    \<lparr>Waiter = 2, WaitIndex = 0\<rparr>]\<rparr>],
      waiters = [Some \<lparr>Mutex = None, Status = - 1, StillWaiting = False, RefCount = 1,
                       WaitAll = False\<rparr>,
                 Some \<lparr>Mutex = None, Status = - 1, StillWaiting = True, RefCount = 2,
                       WaitAll = False\<rparr>,
                 Some \<lparr>Mutex = None, Status = 1, StillWaiting = True, RefCount = 2,
                       WaitAll = True\<rparr>],
      trace = []\<rparr>"

text \<open>Two states with the same events and wait records: they differ in the trace
  only.\<close>

definition same_core :: "world \<Rightarrow> world \<Rightarrow> bool" where
  "same_core x a \<longleftrightarrow> events x = events a \<and> waiters x = waiters a"





text \<open>The number of registrations of wait record \<open>w\<close> in one queue, and in the queues
  of all events.\<close>

definition cnt :: "neosmart_wfmo_info_t list \<Rightarrow> nat \<Rightarrow> nat" where
  "cnt q w = length (filter (\<lambda>i. Waiter i = w) q)"

definition regs :: "world \<Rightarrow> nat \<Rightarrow> nat" where
  "regs s w = sum_list (map (\<lambda>ev. cnt (RegisteredWaits ev) w) (events s))"

text \<open>What a pointer to a wait record points to; nothing beyond the end of the heap.\<close>

definition rec_at :: "world \<Rightarrow> nat \<Rightarrow> neosmart_wfmo_t option" where
  "rec_at s w = (if w < length (waiters s) then waiters s ! w else None)"

text \<open>The invariant of the reference counts. \<open>A\<close> is the set of the records whose
  waiter has not yet left \<open>WaitForMultipleEvents\<close> (it leaves at lines 332-354), and
  \<open>p w\<close> is the number of registrations of \<open>w\<close> that a signaler in the middle of its
  walk has visited and not yet taken out of the queue; between two calls there are
  none. A record that exists counts its waiter, as long as that is in \<open>A\<close>, and
  the registrations not yet visited; its count is positive; it is still waiting only
  if its waiter is in \<open>A\<close>. A cell that was reclaimed, or not allocated yet, has no
  waiter, and only visited registrations point to it.\<close>

definition refs_inv :: "nat set \<Rightarrow> (nat \<Rightarrow> nat) \<Rightarrow> world \<Rightarrow> bool" where
  "refs_inv A p s \<longleftrightarrow>
     (\<forall>w. p w \<le> regs s w
        \<and> (rec_at s w = None \<longrightarrow> w \<notin> A \<and> regs s w = p w)
        \<and> (\<forall>r. rec_at s w = Some r \<longrightarrow>
              RefCount r + int (p w) = (if w \<in> A then 1 else 0) + int (regs s w)
              \<and> 0 < RefCount r \<and> (w \<notin> A \<longrightarrow> \<not> StillWaiting r)))"

definition refs_ok :: "nat set \<Rightarrow> world \<Rightarrow> bool" where
  "refs_ok A s \<longleftrightarrow> refs_inv A (\<lambda>w. 0) s"

text \<open>The state that a wait for any event on the second event of \<open>world_two\<close> leaves
  when it times out after 5 ms: the waiter has left, its record is still registered.\<close>

definition world_departed :: world where
  "world_departed =
     world_two\<lparr>events := [ev_manual_set,
                  ev_auto_clear\<lparr>RegisteredWaits := [\<lparr>Waiter = 0, WaitIndex = 0\<rparr>]\<rparr>],
               waiters := [Some \<lparr>Mutex = None, Status = - 1, StillWaiting = False,
                                 RefCount = 1, WaitAll = False\<rparr>],
               trace := [CondTimedWait 3 (WfmoCV 0)
                           \<lparr>ts_sec = 1700000000, ts_nsec = 255000000\<rparr>]\<rparr>"

section \<open>Basic facts\<close>

lemma rbind_simps [simp]: "rbind (Inr x) f = f x" "rbind (Inl e) f = Inl e"
  by (simp_all add: rbind_def)

lemma rbind_eq_Inr: "rbind m f = Inr y \<longleftrightarrow> (\<exists>x. m = Inr x \<and> f x = Inr y)"
  by (cases m) simp_all

lemma world_sel_simps [simp]:
  "events (put_event e ev s) = (events s)[e := ev]"
  "waiters (put_event e ev s) = waiters s"
  "trace (put_event e ev s) = trace s"
  "events (put_wfmo w r s) = events s"
  "waiters (put_wfmo w r s) = (waiters s)[w := Some r]"
  "trace (put_wfmo w r s) = trace s"
  "events (delete_wfmo w s) = events s"
  "waiters (delete_wfmo w s) = (waiters s)[w := None]"
  "trace (delete_wfmo w s) = trace s"
  "events (log_call c s) = events s"
  "waiters (log_call c s) = waiters s"
  "trace (log_call c s) = trace s @ [c]"
  by (simp_all add: put_event_def put_wfmo_def delete_wfmo_def log_call_def)

section \<open>CreateEvent\<close>

lemma CreateEvent_eq:
  "CreateEvent t manualReset initialState s =
     Inr (length (events s),
          s\<lparr>events := events s @
                [\<lparr>AutoReset = \<not> manualReset, EvMutex = None, State = True, RegisteredWaits = []\<rparr>],
            trace := trace s @
                [if manualReset then CondBroadcast t (EventCV (length (events s)))
                 else CondSignal t (EventCV (length (events s)))]\<rparr>)"
  by (cases manualReset)
     (simp_all add: CreateEvent_def SetEvent_def lock_event_def unlock_event_def set_State_def
        get_event_def Let_def put_event_def log_call_def)

text \<open>
  C1. The claim: the event that \<open>CreateEvent(manual_reset, initial_state)\<close> returns is
  signaled if and only if \<open>initial_state\<close> is true, and a zero-timeout wait on an event
  created with \<open>initial_state = false\<close> returns TIMEOUT.

  The code calls \<open>SetEvent\<close> at line 78 whatever \<open>initialState\<close> is. With
  \<open>initialState = false\<close>, from any state of the heaps and for either reset
  discipline, the new event is signaled, and a zero-timeout \<open>WaitForEvent\<close> on it
  returns 0, not \<open>ETIMEDOUT\<close>.
\<close>

theorem CreateEvent_ignores_initialState:
  "\<exists>s' s''. CreateEvent t manualReset False s = Inr (length (events s), s')
      \<and> State (events s' ! length (events s))
      \<and> WaitForEvent t' (length (events s)) 0 tv wakeups s' = Inr (0, s'')"
  by (cases manualReset)
     (simp_all add: CreateEvent_eq lock_event_def unlock_event_def set_State_def
        get_event_def WaitForEvent_def UnlockedWaitForEvent_def put_event_def)

section \<open>Deadlines\<close>

text \<open>What \<open>abs_deadline\<close> computes, read as natural numbers: the exact sum modulo
  \<open>2 ^ 64\<close>, split into seconds and nanoseconds.\<close>

lemma abs_deadline_unat:
  "unat (ts_sec (abs_deadline tv ms)) = (exact_ns tv ms mod 2 ^ 64) div 1000000000"
  "unat (ts_nsec (abs_deadline tv ms)) = (exact_ns tv ms mod 2 ^ 64) mod 1000000000"
proof -
  define n :: "64 word" where
    "n = tv_sec tv * 1000 * 1000 * 1000 + ms * 1000 * 1000 + tv_usec tv * 1000"
  define M where "M = exact_ns tv ms mod 2 ^ 64"
  have n: "unat n = M"
    unfolding n_def M_def exact_ns_def
    by (simp add: unat_word_ariths mod_simps mult.commute)
  have sec: "unat (n div 1000 div 1000 div 1000) = M div 1000000000"
    by (simp add: unat_div n div_mult2_eq)
  have le: "M div 1000000000 * 1000000000 \<le> M"
    by simp
  have "M < 2 ^ 64"
    unfolding M_def by simp
  with le have lt: "M div 1000000000 * 1000000000 < 2 ^ 64"
    by linarith
  have mul: "unat (n div 1000 div 1000 div 1000 * 1000 * 1000 * 1000)
               = M div 1000000000 * 1000000000"
  proof -
    have "unat (n div 1000 div 1000 div 1000 * 1000 * 1000 * 1000)
          = (M div 1000000000 * 1000000000) mod 2 ^ 64"
      using sec by (simp add: unat_word_ariths mod_simps mult.assoc)
    also have "\<dots> = M div 1000000000 * 1000000000"
      using lt by simp
    finally show ?thesis .
  qed
  have sub: "unat (n - n div 1000 div 1000 div 1000 * 1000 * 1000 * 1000)
               = M - M div 1000000000 * 1000000000"
    using le mul n by (simp add: unat_sub word_le_nat_alt)
  show "unat (ts_sec (abs_deadline tv ms)) = (exact_ns tv ms mod 2 ^ 64) div 1000000000"
    using sec by (simp add: abs_deadline_def Let_def n_def M_def)
  show "unat (ts_nsec (abs_deadline tv ms)) = (exact_ns tv ms mod 2 ^ 64) mod 1000000000"
    using sub by (simp add: abs_deadline_def Let_def n_def M_def minus_div_mult_eq_mod)
qed

text \<open>
  C8. The claim: for every finite timeout (not 0, not the all-ones sentinel) the
  deadline passed to the timed wait is the clock reading plus exactly
  \<open>milliseconds\<close>, as a \<open>tv_sec\<close>/\<open>tv_nsec\<close> pair, computed in exact,
  non-overflowing arithmetic.

  The sum is computed in \<open>uint64_t\<close> and wraps. At one second past the epoch and
  a timeout of \<open>2 ^ 63\<close> milliseconds the product \<open>milliseconds * 1000 * 1000\<close> is
  0 modulo \<open>2 ^ 64\<close>, and the deadline is the clock reading itself.
\<close>

theorem deadline_wraps_counterexample:
  "(2 ^ 63 :: 64 word) \<noteq> 0 \<and> (2 ^ 63 :: 64 word) \<noteq> - 1
   \<and> deadline_of \<lparr>tv_sec = 1, tv_usec = 0\<rparr> (2 ^ 63) = Some \<lparr>ts_sec = 1, ts_nsec = 0\<rparr>
   \<and> unat (ts_sec (abs_deadline \<lparr>tv_sec = 1, tv_usec = 0\<rparr> (2 ^ 63))) * 1000000000
       + unat (ts_nsec (abs_deadline \<lparr>tv_sec = 1, tv_usec = 0\<rparr> (2 ^ 63)))
     \<noteq> exact_ns \<lparr>tv_sec = 1, tv_usec = 0\<rparr> (2 ^ 63)"
  by (simp add: deadline_of_def abs_deadline_def exact_ns_def)

text \<open>
  C8, amended. For a finite timeout whose exact sum
  \<open>tv_sec * 10^9 + milliseconds * 10^6 + tv_usec * 10^3\<close> is below \<open>2 ^ 64\<close>, the
  deadline passed to the timed wait is that sum: \<open>tv_sec\<close> of the deadline times
  \<open>10^9\<close> plus its \<open>tv_nsec\<close> equals it, and \<open>tv_nsec\<close> is below \<open>10^9\<close>.
\<close>

theorem deadline_exact_when_no_wrap:
  assumes "milliseconds \<noteq> 0" and "milliseconds \<noteq> - 1"
    and "exact_ns tv milliseconds < 2 ^ 64"
  shows "\<exists>d. deadline_of tv milliseconds = Some d
           \<and> unat (ts_sec d) * 1000000000 + unat (ts_nsec d) = exact_ns tv milliseconds
           \<and> unat (ts_nsec d) < 1000000000"
  using assms by (simp add: deadline_of_def abs_deadline_unat)

theorem deadline_exact_witness:
  "\<exists>d. deadline_of \<lparr>tv_sec = 1700000000, tv_usec = 999999\<rparr> 1500 = Some d
        \<and> unat (ts_sec d) * 1000000000 + unat (ts_nsec d)
            = exact_ns \<lparr>tv_sec = 1700000000, tv_usec = 999999\<rparr> 1500
        \<and> unat (ts_nsec d) < 1000000000"
  using deadline_exact_when_no_wrap [of 1500 "\<lparr>tv_sec = 1700000000, tv_usec = 999999\<rparr>"]
  by (simp add: exact_ns_def)

section \<open>Effects of the primitives\<close>

declare wfmo_loop.simps [simp del]

lemma get_event_Inr [simp]:
  "get_event e s = Inr ev \<longleftrightarrow> e < length (events s) \<and> ev = events s ! e"
  by (auto simp: get_event_def)

lemma get_wfmo_Inr [simp]:
  "get_wfmo w s = Inr r \<longleftrightarrow> w < length (waiters s) \<and> waiters s ! w = Some r"
  by (auto simp: get_wfmo_def split: option.splits)

lemma lock_event_Inr:
  "lock_event t e s = Inr s' \<longleftrightarrow>
     e < length (events s) \<and> EvMutex (events s ! e) = None
     \<and> s' = put_event e ((events s ! e)\<lparr>EvMutex := Some t\<rparr>) s"
  by (auto simp: lock_event_def rbind_eq_Inr)

lemma unlock_event_Inr:
  "unlock_event e s = Inr s' \<longleftrightarrow>
     e < length (events s) \<and> s' = put_event e ((events s ! e)\<lparr>EvMutex := None\<rparr>) s"
  by (auto simp: unlock_event_def rbind_eq_Inr)

lemma set_State_Inr:
  "set_State e b s = Inr s' \<longleftrightarrow>
     e < length (events s) \<and> s' = put_event e ((events s ! e)\<lparr>State := b\<rparr>) s"
  by (auto simp: set_State_def rbind_eq_Inr)

lemma pop_front_Inr:
  "pop_front e s = Inr s' \<longleftrightarrow>
     e < length (events s)
     \<and> s' = put_event e ((events s ! e)\<lparr>RegisteredWaits := tl (RegisteredWaits (events s ! e))\<rparr>) s"
  by (auto simp: pop_front_def rbind_eq_Inr)

lemma lock_wfmo_Inr:
  "lock_wfmo t w s = Inr s' \<longleftrightarrow>
     (\<exists>r. w < length (waiters s) \<and> waiters s ! w = Some r \<and> Mutex r = None
          \<and> s' = put_wfmo w (r\<lparr>Mutex := Some t\<rparr>) s)"
  by (auto simp: lock_wfmo_def rbind_eq_Inr)

lemma unlock_wfmo_Inr:
  "unlock_wfmo w s = Inr s' \<longleftrightarrow>
     (\<exists>r. w < length (waiters s) \<and> waiters s ! w = Some r
          \<and> s' = put_wfmo w (r\<lparr>Mutex := None\<rparr>) s)"
  by (auto simp: unlock_wfmo_def rbind_eq_Inr)

lemma Destroy_Inr:
  "Destroy t w s = Inr s' \<longleftrightarrow>
     (\<exists>r. w < length (waiters s) \<and> waiters s ! w = Some r
          \<and> s' = log_call (CondDestroy t w) (log_call (MutexDestroy t w (Mutex r)) s))"
  by (auto simp: Destroy_def rbind_eq_Inr)

lemma take_reference_Inr:
  "take_reference t w s = Inr s' \<longleftrightarrow>
     (\<exists>r. w < length (waiters s) \<and> waiters s ! w = Some r \<and> Mutex r = None
          \<and> s' = put_wfmo w (r\<lparr>Mutex := Some t, RefCount := RefCount r - 1\<rparr>) s)"
  by (auto simp: take_reference_def rbind_eq_Inr lock_wfmo_Inr put_wfmo_def)
lemma drop_departed_Inr:
  "drop_departed t w s = Inr s' \<longleftrightarrow>
     (\<exists>r. w < length (waiters s) \<and> waiters s ! w = Some r
          \<and> s' = (if RefCount r = 0
                   then delete_wfmo w (log_call (CondDestroy t w) (log_call (MutexDestroy t w (Mutex r)) s))
                   else put_wfmo w (r\<lparr>Mutex := None\<rparr>) s))"
  by (cases "w < length (waiters s)"; cases "waiters s ! w")
     (auto simp: drop_departed_def Destroy_def unlock_wfmo_def get_wfmo_def)
lemma notify_waiter_Inr:
  "notify_waiter i s = Inr s' \<longleftrightarrow>
     (\<exists>r. Waiter i < length (waiters s) \<and> waiters s ! Waiter i = Some r
          \<and> (WaitAll r \<longrightarrow> 1 \<le> Status r)
          \<and> s' = put_wfmo (Waiter i)
                   (if WaitAll r then r\<lparr>Status := Status r - 1\<rparr>
                    else r\<lparr>Status := WaitIndex i, StillWaiting := False\<rparr>) s)"
  by (cases "Waiter i < length (waiters s)"; cases "waiters s ! Waiter i")
     (auto simp: notify_waiter_def get_wfmo_def)

lemmas prim_Inr = lock_event_Inr unlock_event_Inr set_State_Inr pop_front_Inr lock_wfmo_Inr
  unlock_wfmo_Inr Destroy_Inr take_reference_Inr drop_departed_Inr notify_waiter_Inr

lemma keeps_refl [simp]: "keeps e s s"
  by (simp add: keeps_def)

lemma map_AutoReset_nth:
  "map AutoReset xs = map AutoReset ys \<Longrightarrow> k < length ys
   \<Longrightarrow> k < length xs \<and> AutoReset (xs ! k) = AutoReset (ys ! k)"
  by (metis length_map nth_map)

lemma keeps_trans: "keeps e s s1 \<Longrightarrow> keeps e s1 s2 \<Longrightarrow> keeps e s s2"
  unfolding keeps_def using map_AutoReset_nth by metis

lemma keeps_same_events: "events s' = events s \<Longrightarrow> keeps e s s'"
  by (simp add: keeps_def)

lemma map_update_same: "k < length xs \<Longrightarrow> f y = f (xs ! k) \<Longrightarrow> map f (xs[k := y]) = map f xs"
  by (simp add: map_update list_update_same_conv)

lemma keeps_put_event:
  "k < length (events s) \<Longrightarrow> AutoReset ev = AutoReset (events s ! k)
   \<Longrightarrow> (\<not> AutoReset ev \<Longrightarrow> State (events s ! k) \<Longrightarrow> k = e \<Longrightarrow> State ev)
   \<Longrightarrow> keeps e s (put_event k ev s)"
  by (auto simp: keeps_def map_update_same nth_list_update)

lemma keeps_cong: "events a = events a' \<Longrightarrow> events b = events b' \<Longrightarrow> keeps e a b = keeps e a' b'"
  by (simp add: keeps_def)

lemma keeps_frame [simp]:
  "keeps e s (log_call c s') = keeps e s s'"
  "keeps e s (put_wfmo w r s') = keeps e s s'"
  "keeps e s (delete_wfmo w s') = keeps e s s'"
  "keeps e (log_call c s) s' = keeps e s s'"
  "keeps e (put_wfmo w r s) s' = keeps e s s'"
  "keeps e (delete_wfmo w s) s' = keeps e s s'"
  by (simp_all add: keeps_def)

lemma keeps_kind:
  "keeps e s s' \<Longrightarrow> k < length (events s)
   \<Longrightarrow> k < length (events s') \<and> AutoReset (events s' ! k) = AutoReset (events s ! k)"
  unfolding keeps_def using map_AutoReset_nth by metis

lemma lock_event_keeps: "lock_event t k s = Inr s' \<Longrightarrow> keeps e s s'"
  by (auto simp: prim_Inr intro!: keeps_put_event)

lemma unlock_event_keeps: "unlock_event k s = Inr s' \<Longrightarrow> keeps e s s'"
  by (auto simp: prim_Inr intro!: keeps_put_event)

lemma pop_front_keeps: "pop_front k s = Inr s' \<Longrightarrow> keeps e s s'"
  by (auto simp: prim_Inr intro!: keeps_put_event)

lemma set_State_keeps:
  "set_State k b s = Inr s' \<Longrightarrow> b \<or> k \<noteq> e \<or> AutoReset (events s ! k) \<Longrightarrow> keeps e s s'"
  by (auto simp: prim_Inr intro!: keeps_put_event)

lemma wfmo_ops_events:
  "lock_wfmo t w s = Inr s' \<Longrightarrow> events s' = events s"
  "unlock_wfmo w s = Inr s' \<Longrightarrow> events s' = events s"
  "Destroy t w s = Inr s' \<Longrightarrow> events s' = events s"
  "take_reference t w s = Inr s' \<Longrightarrow> events s' = events s"
  "drop_departed t w s = Inr s' \<Longrightarrow> events s' = events s"
  "notify_waiter i s = Inr s' \<Longrightarrow> events s' = events s"
  by (auto simp: prim_Inr split: if_splits)

lemma walk_manual_events: "walk_manual t q s = Inr s' \<Longrightarrow> events s' = events s"
proof (induction q arbitrary: s)
  case Nil
  then show ?case by simp
next
  case (Cons i q)
  from Cons.prems obtain s1 where "walk_manual t q s1 = Inr s'" and "events s1 = events s"
    by (auto simp: rbind_eq_Inr split: if_splits dest!: wfmo_ops_events)
  with Cons.IH show ?case by simp
qed

lemma walk_auto_keeps:
  "walk_auto t k q s = Inr (ret, s') \<Longrightarrow> k < length (events s) \<Longrightarrow> AutoReset (events s ! k)
   \<Longrightarrow> keeps e s s'"
proof (induction q arbitrary: s)
  case Nil
  then show ?case by simp
next
  case (Cons i q)
  from Cons.prems(1) obtain s1 r where
    s1: "take_reference t (Waiter i) s = Inr s1" and r: "get_wfmo (Waiter i) s1 = Inr r" and
    rest: "(if \<not> StillWaiting r
            then rbind (drop_departed t (Waiter i) s1) (\<lambda>s2. rbind (pop_front k s2) (\<lambda>s3. walk_auto t k q s3))
            else rbind (set_State k False s1) (\<lambda>s2.
                 rbind (notify_waiter i s2) (\<lambda>s3.
                 rbind (unlock_wfmo (Waiter i) s3) (\<lambda>s4.
                 rbind (pop_front k (log_call (CondSignal t (WfmoCV (Waiter i))) s4)) (\<lambda>s5.
                 rbind (unlock_event k s5) (\<lambda>s6. Inr (Some 0, s6))))))) = Inr (ret, s')"
    by (auto simp: rbind_eq_Inr)
  have ev1: "events s1 = events s"
    using s1 by (rule wfmo_ops_events)
  show ?case
  proof (cases "StillWaiting r")
    case False
    with rest obtain s2 s3 where s2: "drop_departed t (Waiter i) s1 = Inr s2"
      and s3: "pop_front k s2 = Inr s3" and w: "walk_auto t k q s3 = Inr (ret, s')"
      by (auto simp: rbind_eq_Inr)
    have ev2: "events s2 = events s"
      using wfmo_ops_events(5) [OF s2] ev1 by simp
    have k3: "keeps e s s3"
      using pop_front_keeps [OF s3, of e] ev2 by (simp add: keeps_def)
    from keeps_kind [OF k3 Cons.prems(2)] Cons.prems(3) Cons.IH [OF w]
    have "keeps e s3 s'" by simp
    with k3 show ?thesis by (rule keeps_trans)
  next
    case True
    with rest obtain s2 s3 s4 s5 where
      s2: "set_State k False s1 = Inr s2" and s3: "notify_waiter i s2 = Inr s3" and
      s4: "unlock_wfmo (Waiter i) s3 = Inr s4" and
      s5: "pop_front k (log_call (CondSignal t (WfmoCV (Waiter i))) s4) = Inr s5" and
      s6: "unlock_event k s5 = Inr s'"
      by (auto simp: rbind_eq_Inr)
    have k2: "keeps e s s2"
      using set_State_keeps [OF s2, of e] ev1 Cons.prems(3) by (simp add: keeps_def)
    have ev4: "events (log_call (CondSignal t (WfmoCV (Waiter i))) s4) = events s2"
      using wfmo_ops_events(6) [OF s3] wfmo_ops_events(2) [OF s4] by simp
    have k5: "keeps e s2 s5"
      using pop_front_keeps [OF s5, of e] ev4 by (simp add: keeps_def)
    from k2 k5 unlock_event_keeps [OF s6, of e] show ?thesis
      by (blast intro: keeps_trans)
  qed
qed

lemma SetEvent_keeps: "SetEvent t k s = Inr (result, s') \<Longrightarrow> keeps e s s'"
proof -
  assume a: "SetEvent t k s = Inr (result, s')"
  then obtain s1 s2 where s1: "lock_event t k s = Inr s1" and s2: "set_State k True s1 = Inr s2"
    and rest: "(if AutoReset (events s2 ! k)
       then rbind (walk_auto t k (RegisteredWaits (events s2 ! k)) s2) (\<lambda>(ret, s3).
              case ret of
                Some result \<Rightarrow> Inr (result, s3)
              | None \<Rightarrow>
                  rbind (get_event k s3) (\<lambda>ev3.
                    if State ev3
                    then rbind (unlock_event k s3) (\<lambda>s4.
                           Inr (0, log_call (CondSignal t (EventCV k)) s4))
                    else Inr (0, s3)))
       else rbind (walk_manual t (RegisteredWaits (events s2 ! k)) s2) (\<lambda>s3.
            rbind (get_event k s3) (\<lambda>ev3.
            rbind (unlock_event k (put_event k (ev3\<lparr>RegisteredWaits := []\<rparr>) s3)) (\<lambda>s4.
              Inr (0, log_call (CondBroadcast t (EventCV k)) s4))))) = Inr (result, s')"
    by (auto simp: SetEvent_def rbind_eq_Inr)
  have k2: "keeps e s s2"
    using lock_event_keeps [OF s1] set_State_keeps [OF s2] by (blast intro: keeps_trans)
  have len2: "k < length (events s2)"
    using s2 by (auto simp: prim_Inr)
  show ?thesis
  proof (cases "AutoReset (events s2 ! k)")
    case True
    with rest obtain ret s3 where w: "walk_auto t k (RegisteredWaits (events s2 ! k)) s2 = Inr (ret, s3)"
      and fin: "(case ret of Some result \<Rightarrow> Inr (result, s3)
              | None \<Rightarrow>
                  rbind (get_event k s3) (\<lambda>ev3.
                    if State ev3
                    then rbind (unlock_event k s3) (\<lambda>s4.
                           Inr (0, log_call (CondSignal t (EventCV k)) s4))
                    else Inr (0, s3))) = Inr (result, s')"
      by (auto simp: rbind_eq_Inr)
    have k3: "keeps e s2 s3"
      using walk_auto_keeps [OF w len2 True] .
    have "keeps e s3 s'"
      using fin by (cases ret) (auto simp: rbind_eq_Inr prim_Inr split: if_splits intro!: keeps_put_event)
    with k2 k3 show ?thesis
      by (blast intro: keeps_trans)
  next
    case False
    with rest obtain s3 s4 where w: "walk_manual t (RegisteredWaits (events s2 ! k)) s2 = Inr s3"
      and s4: "unlock_event k (put_event k ((events s3 ! k)\<lparr>RegisteredWaits := []\<rparr>) s3) = Inr s4"
      and fin: "k < length (events s3)" "s' = log_call (CondBroadcast t (EventCV k)) s4"
      by (auto simp: rbind_eq_Inr)
    have "keeps e s3 (put_event k ((events s3 ! k)\<lparr>RegisteredWaits := []\<rparr>) s3)"
      using fin(1) by (auto intro!: keeps_put_event)
    with unlock_event_keeps [OF s4] have "keeps e s3 s4"
      by (blast intro: keeps_trans)
    then have "keeps e s2 s'"
      using walk_manual_events [OF w] fin(2) by (simp add: keeps_def)
    with k2 show ?thesis
      by (blast intro: keeps_trans)
  qed
qed

lemma ResetEvent_keeps:
  "ResetEvent t k s = Inr (result, s') \<Longrightarrow> k \<noteq> e \<or> AutoReset (events s ! k) \<Longrightarrow> keeps e s s'"
proof -
  assume a: "ResetEvent t k s = Inr (result, s')" and b: "k \<noteq> e \<or> AutoReset (events s ! k)"
  then obtain s1 s2 where s1: "lock_event t k s = Inr s1" and s2: "set_State k False s1 = Inr s2"
    and s3: "unlock_event k s2 = Inr s'"
    by (auto simp: ResetEvent_def rbind_eq_Inr)
  have k1: "keeps e s s1" using s1 by (rule lock_event_keeps)
  have "k < length (events s)" using s1 by (auto simp: prim_Inr)
  from keeps_kind [OF k1 this] b have "k \<noteq> e \<or> AutoReset (events s1 ! k)" by simp
  with set_State_keeps [OF s2] have "keeps e s1 s2" by blast
  with k1 unlock_event_keeps [OF s3] show ?thesis
    by (blast intro: keeps_trans)
qed

lemma perform_keeps: "perform a s = Inr s' \<Longrightarrow> \<not> resets a e \<Longrightarrow> keeps e s s'"
  by (cases a) (auto simp: rbind_eq_Inr dest: SetEvent_keeps ResetEvent_keeps)

lemma run_env_keeps:
  "run_env acts s = Inr s' \<Longrightarrow> \<forall>a \<in> set acts. \<not> resets a e \<Longrightarrow> keeps e s s'"
proof (induction acts arbitrary: s)
  case Nil
  then show ?case by simp
next
  case (Cons a acts)
  then show ?case
    by (auto simp: rbind_eq_Inr intro: keeps_trans dest: perform_keeps)
qed

lemma no_reset_Cons [simp]:
  "no_reset e ((rc, acts) # ws) \<longleftrightarrow> (\<forall>a \<in> set acts. \<not> resets a e) \<and> no_reset e ws"
  by (auto simp: no_reset_def)

lemma no_reset_Nil [simp]: "no_reset e []"
  by (simp add: no_reset_def)

lemma cond_wait_event_keeps:
  "cond_wait_event t k ts acts s = Inr s' \<Longrightarrow> \<forall>a \<in> set acts. \<not> resets a e \<Longrightarrow> keeps e s s'"
proof -
  assume a: "cond_wait_event t k ts acts s = Inr s'" and b: "\<forall>a \<in> set acts. \<not> resets a e"
  then obtain s1 s2 where "unlock_event k (log_call (wait_call t (EventCV k) ts) s) = Inr s1"
    and "run_env acts s1 = Inr s2" and "lock_event t k s2 = Inr s'"
    by (auto simp: cond_wait_event_def rbind_eq_Inr)
  then have "keeps e s s1" "keeps e s1 s2" "keeps e s2 s'"
    using b by (auto dest: unlock_event_keeps [of _ _ _ e] run_env_keeps lock_event_keeps)
  then show ?thesis by (blast intro: keeps_trans)
qed

lemma cond_wait_wfmo_keeps:
  "cond_wait_wfmo t w ts acts s = Inr s' \<Longrightarrow> \<forall>a \<in> set acts. \<not> resets a e \<Longrightarrow> keeps e s s'"
proof -
  assume a: "cond_wait_wfmo t w ts acts s = Inr s'" and b: "\<forall>a \<in> set acts. \<not> resets a e"
  then obtain s1 s2 where "unlock_wfmo w (log_call (wait_call t (WfmoCV w) ts) s) = Inr s1"
    and "run_env acts s1 = Inr s2" and "lock_wfmo t w s2 = Inr s'"
    by (auto simp: cond_wait_wfmo_def rbind_eq_Inr)
  then have "events s1 = events s" "keeps e s1 s2" "events s' = events s2"
    using b by (auto dest: wfmo_ops_events run_env_keeps)
  then show ?thesis by (simp add: keeps_def)
qed

lemma wait_loop_keeps:
  "wait_loop t k ts wakeups s = Inr (result, s') \<Longrightarrow> no_reset e wakeups \<Longrightarrow> keeps e s s'"
proof (induction wakeups arbitrary: s)
  case Nil
  then show ?case by simp
next
  case (Cons wk ws)
  obtain rc acts where wk: "wk = (rc, acts)" by (cases wk)
  from Cons.prems obtain s1 where s1: "cond_wait_event t k ts acts s = Inr s1"
    and rest: "(if rc = 0 \<and> \<not> State (events s1 ! k) then wait_loop t k ts ws s1 else Inr (rc, s1))
                 = Inr (result, s')"
    by (auto simp: wk rbind_eq_Inr)
  have k1: "keeps e s s1"
    using cond_wait_event_keeps [OF s1] Cons.prems(2) by (simp add: wk)
  have "keeps e s1 s'"
    using rest Cons.IH [of s1] Cons.prems(2) by (auto simp: wk split: if_splits)
  with k1 show ?case by (rule keeps_trans)
qed

lemma UnlockedWaitForEvent_keeps:
  "UnlockedWaitForEvent t k ms tv wakeups s = Inr (result, s') \<Longrightarrow> no_reset e wakeups \<Longrightarrow> keeps e s s'"
  by (auto simp: UnlockedWaitForEvent_def rbind_eq_Inr split: if_splits
           dest!: wait_loop_keeps set_State_keeps [where e = e] intro: keeps_trans)

lemma WaitForEvent_keeps:
  "WaitForEvent t k ms tv wakeups s = Inr (result, s') \<Longrightarrow> no_reset e wakeups \<Longrightarrow> keeps e s s'"
proof -
  assume a: "WaitForEvent t k ms tv wakeups s = Inr (result, s')" and b: "no_reset e wakeups"
  then obtain s1 s2 where "lock_event t k s = Inr s1"
    and "UnlockedWaitForEvent t k ms tv wakeups s1 = Inr (result, s2)" and "unlock_event k s2 = Inr s'"
    by (auto simp: WaitForEvent_def rbind_eq_Inr)
  then have "keeps e s s1" "keeps e s1 s2" "keeps e s2 s'"
    using b by (auto dest: unlock_event_keeps [of _ _ _ e] UnlockedWaitForEvent_keeps lock_event_keeps)
  then show ?thesis by (blast intro: keeps_trans)
qed

lemma register_loop_keeps:
  "register_loop t evs w waitAll tv i n s = Inr (dn, s') \<Longrightarrow> keeps e s s'"
proof (induction n arbitrary: i s)
  case 0
  then show ?case by simp
next
  case (Suc n)
  from Suc.prems obtain s1 result s2 where i: "i < length evs"
    and s1: "lock_event t (evs ! i) s = Inr s1"
    and s2: "UnlockedWaitForEvent t (evs ! i) 0 tv [] s1 = Inr (result, s2)"
    and rest: "(if result = 0
             then rbind (unlock_event (evs ! i) s2) (\<lambda>s3.
                  rbind (get_wfmo w s3) (\<lambda>r.
                    if waitAll
                    then (if Status r - 1 \<ge> 0
                          then register_loop t evs w waitAll tv (Suc i) n
                                 (put_wfmo w (r\<lparr>Status := Status r - 1\<rparr>) s3)
                          else Inl AssertFailed)
                    else Inr (True, put_wfmo w (r\<lparr>Status := int i\<rparr>) s3)))
             else rbind (get_event (evs ! i) s2) (\<lambda>ev.
                  rbind (get_wfmo w s2) (\<lambda>r.
                  rbind (unlock_event (evs ! i)
                           (put_wfmo w (r\<lparr>RefCount := RefCount r + 1\<rparr>)
                             (put_event (evs ! i)
                                (ev\<lparr>RegisteredWaits :=
                                      RegisteredWaits ev @ [\<lparr>Waiter = w, WaitIndex = int i\<rparr>]\<rparr>) s2)))
                    (\<lambda>s3. register_loop t evs w waitAll tv (Suc i) n s3)))) = Inr (dn, s')"
    by (auto simp: rbind_eq_Inr split: if_splits)
  have k2: "keeps e s s2"
    using lock_event_keeps [OF s1] UnlockedWaitForEvent_keeps [OF s2] by (auto intro: keeps_trans)
  have "keeps e s2 s'"
  proof (cases "result = 0")
    case True
    with rest obtain s3 r where s3: "unlock_event (evs ! i) s2 = Inr s3"
      and fin: "(if waitAll
                    then (if Status r - 1 \<ge> 0
                          then register_loop t evs w waitAll tv (Suc i) n
                                 (put_wfmo w (r\<lparr>Status := Status r - 1\<rparr>) s3)
                          else Inl AssertFailed)
                    else Inr (True, put_wfmo w (r\<lparr>Status := int i\<rparr>) s3)) = Inr (dn, s')"
      by (auto simp: rbind_eq_Inr)
    have "keeps e s3 s'"
      using fin Suc.IH [of "Suc i" "put_wfmo w (r\<lparr>Status := Status r - 1\<rparr>) s3"]
      by (auto split: if_splits)
    with unlock_event_keeps [OF s3] show ?thesis by (rule keeps_trans)
  next
    case False
    with rest obtain r s3 where len: "evs ! i < length (events s2)"
      and s3: "unlock_event (evs ! i)
                 (put_wfmo w (r\<lparr>RefCount := RefCount r + 1\<rparr>)
                    (put_event (evs ! i)
                       ((events s2 ! (evs ! i))\<lparr>RegisteredWaits :=
                           RegisteredWaits (events s2 ! (evs ! i)) @ [\<lparr>Waiter = w, WaitIndex = int i\<rparr>]\<rparr>) s2))
               = Inr s3"
      and fin: "register_loop t evs w waitAll tv (Suc i) n s3 = Inr (dn, s')"
      by (auto simp: rbind_eq_Inr)
    have "keeps e s2 (put_event (evs ! i)
                       ((events s2 ! (evs ! i))\<lparr>RegisteredWaits :=
                           RegisteredWaits (events s2 ! (evs ! i)) @ [\<lparr>Waiter = w, WaitIndex = int i\<rparr>]\<rparr>) s2)"
      using len by (auto intro!: keeps_put_event)
    with unlock_event_keeps [OF s3, of e] have "keeps e s2 s3"
      by (auto intro: keeps_trans)
    with Suc.IH [OF fin] show ?thesis by (blast intro: keeps_trans)
  qed
  with k2 show ?case by (rule keeps_trans)
qed

lemma wfmo_loop_keeps:
  "wfmo_loop t w waitAll ts result wakeups s = Inr (result', s') \<Longrightarrow> no_reset e wakeups
   \<Longrightarrow> keeps e s s'"
proof (induction wakeups arbitrary: s result)
  case Nil
  then show ?case
    by (subst (asm) wfmo_loop.simps) (auto simp: rbind_eq_Inr split: if_splits)
next
  case (Cons wk ws)
  obtain rc acts where wk: "wk = (rc, acts)" by (cases wk)
  show ?case
  proof (cases "s' = s")
    case True
    then show ?thesis by simp
  next
    case False
    with Cons.prems(1) obtain s1 where s1: "cond_wait_wfmo t w ts acts s = Inr s1"
      and rest: "(if rc \<noteq> 0 then Inr (rc, s1) else wfmo_loop t w waitAll ts rc ws s1) = Inr (result', s')"
      by (subst (asm) wfmo_loop.simps) (auto simp: wk rbind_eq_Inr split: if_splits)
    have "keeps e s s1"
      using cond_wait_wfmo_keeps [OF s1] Cons.prems(2) by (simp add: wk)
    moreover have "keeps e s1 s'"
      using rest Cons.IH [of rc s1] Cons.prems(2) by (auto simp: wk split: if_splits)
    ultimately show ?thesis by (rule keeps_trans)
  qed
qed

lemma finalize_events: "finalize t w result s = Inr (result', idx, s') \<Longrightarrow> events s' = events s"
  by (auto simp: finalize_def Let_def rbind_eq_Inr prim_Inr split: if_splits)

lemma WaitForMultipleEvents_keeps:
  "WaitForMultipleEvents t evs count waitAll ms tv wakeups s = Inr (result, idx, s')
   \<Longrightarrow> no_reset e wakeups \<Longrightarrow> keeps e s s'"
proof -
  assume a: "WaitForMultipleEvents t evs count waitAll ms tv wakeups s = Inr (result, idx, s')"
    and b: "no_reset e wakeups"
  then obtain dn s1 r2 s2 where
    s1: "register_loop t evs (length (waiters s)) waitAll tv 0 (nat count) (new_wfmo t waitAll count s)
          = Inr (dn, s1)"
    and s2: "(if \<not> dn
             then (if ms = 0 then Inr (ETIMEDOUT, s1)
                   else wfmo_loop t (length (waiters s)) waitAll (deadline_of tv ms) 0 wakeups s1)
             else Inr (0, s1)) = Inr (r2, s2)"
    and s3: "finalize t (length (waiters s)) r2 s2 = Inr (result, idx, s')"
    by (auto simp: WaitForMultipleEvents_def Let_def rbind_eq_Inr)
  have "keeps e (new_wfmo t waitAll count s) s1"
    using s1 by (rule register_loop_keeps)
  then have "keeps e s s1"
    by (simp add: keeps_def new_wfmo_def)
  moreover have "keeps e s1 s2"
    using s2 b by (auto split: if_splits dest: wfmo_loop_keeps)
  ultimately have "keeps e s s2"
    by (rule keeps_trans)
  then show ?thesis
    using finalize_events [OF s3] by (simp add: keeps_def)
qed

section \<open>Manual-reset events stay signaled\<close>

lemma keeps_signaled_manual: "keeps e s s' \<Longrightarrow> signaled_manual e s \<Longrightarrow> signaled_manual e s'"
  unfolding signaled_manual_def using keeps_kind [of e s s' e] by (auto simp: keeps_def)

lemma UnlockedWaitForEvent_signaled_manual:
  "signaled_manual e s \<Longrightarrow> UnlockedWaitForEvent t e ms tv wakeups s = Inr (0, s)"
  by (simp add: UnlockedWaitForEvent_def signaled_manual_def get_event_def)

lemma put_event_same: "k < length (events s) \<Longrightarrow> ev = events s ! k \<Longrightarrow> put_event k ev s = s"
  by (simp add: put_event_def)

lemma EvMutex_update_same: "EvMutex ev = m \<Longrightarrow> ev\<lparr>EvMutex := m\<rparr> = ev"
  by auto

lemma WaitForEvent_signaled_manual:
  "signaled_manual e s \<Longrightarrow> EvMutex (events s ! e) = None
   \<Longrightarrow> WaitForEvent t e ms tv wakeups s = Inr (0, s)"
  by (simp add: WaitForEvent_def UnlockedWaitForEvent_def signaled_manual_def get_event_def
        lock_event_def unlock_event_def put_event_def EvMutex_update_same)

text \<open>
  What holds of the waits on a single event. On a manual-reset event whose state is
  true, \<open>WaitForEvent\<close>, and \<open>UnlockedWaitForEvent\<close> inside it and inside the
  registration loop of a multi-wait, return 0 and the very same state, whatever the
  timeout and the wake-ups, so no condition wait took place. The event is still
  manual-reset and signaled after \<open>SetEvent\<close> on any event, \<open>ResetEvent\<close> on another
  event, \<open>CreateEvent\<close>, and any \<open>WaitForEvent\<close> or \<open>WaitForMultipleEvents\<close> during
  which no other thread resets it. \<open>ResetEvent\<close> on the event sets its state to false.
\<close>

lemma single_wait_on_signaled_manual:
  assumes "signaled_manual e s"
  shows "UnlockedWaitForEvent t e ms tv wakeups s = Inr (0, s)
    \<and> (EvMutex (events s ! e) = None \<longrightarrow> WaitForEvent t e ms tv wakeups s = Inr (0, s))
    \<and> (SetEvent t k s = Inr (result, s1) \<longrightarrow> signaled_manual e s1)
    \<and> (k \<noteq> e \<and> ResetEvent t k s = Inr (result, s2) \<longrightarrow> signaled_manual e s2)
    \<and> (CreateEvent t manualReset initialState s = Inr (h, s3) \<longrightarrow> signaled_manual e s3)
    \<and> (no_reset e wakeups \<and> WaitForEvent t k ms tv wakeups s = Inr (result, s4)
           \<longrightarrow> signaled_manual e s4)
    \<and> (no_reset e wakeups
          \<and> WaitForMultipleEvents t evs count waitAll ms tv wakeups s = Inr (result, idx, s5)
           \<longrightarrow> signaled_manual e s5)
    \<and> (ResetEvent t e s = Inr (result, s6) \<longrightarrow> \<not> State (events s6 ! e))"
proof -
  have "UnlockedWaitForEvent t e ms tv wakeups s = Inr (0, s)"
    using assms by (rule UnlockedWaitForEvent_signaled_manual)
  moreover have "EvMutex (events s ! e) = None \<longrightarrow> WaitForEvent t e ms tv wakeups s = Inr (0, s)"
    using assms by (simp add: WaitForEvent_signaled_manual)
  moreover have "SetEvent t k s = Inr (result, s1) \<longrightarrow> signaled_manual e s1"
    using assms by (blast intro: keeps_signaled_manual SetEvent_keeps)
  moreover have "k \<noteq> e \<and> ResetEvent t k s = Inr (result, s2) \<longrightarrow> signaled_manual e s2"
    using assms by (blast intro: keeps_signaled_manual ResetEvent_keeps)
  moreover have "CreateEvent t manualReset initialState s = Inr (h, s3) \<longrightarrow> signaled_manual e s3"
    using assms by (auto simp: CreateEvent_eq signaled_manual_def nth_append)
  moreover have "no_reset e wakeups \<and> WaitForEvent t k ms tv wakeups s = Inr (result, s4)
           \<longrightarrow> signaled_manual e s4"
    using assms by (blast intro: keeps_signaled_manual WaitForEvent_keeps)
  moreover have "no_reset e wakeups
          \<and> WaitForMultipleEvents t evs count waitAll ms tv wakeups s = Inr (result, idx, s5)
           \<longrightarrow> signaled_manual e s5"
    using assms by (blast intro: keeps_signaled_manual WaitForMultipleEvents_keeps)
  moreover have "ResetEvent t e s = Inr (result, s6) \<longrightarrow> \<not> State (events s6 ! e)"
    by (auto simp: ResetEvent_def rbind_eq_Inr prim_Inr)
  ultimately show ?thesis by blast
qed

lemma single_wait_on_signaled_manual_instance:
  "signaled_manual 0 world_two
   \<and> EvMutex (events world_two ! 0) = None
   \<and> no_reset 0 [(0, [DoSetEvent 2 1])]
   \<and> UnlockedWaitForEvent 1 0 5 clock0 [(0, [DoSetEvent 2 1])] world_two = Inr (0, world_two)
   \<and> WaitForEvent 1 0 5 clock0 [(0, [DoSetEvent 2 1])] world_two = Inr (0, world_two)
   \<and> (\<exists>s1. SetEvent 1 1 world_two = Inr (0, s1) \<and> signaled_manual 0 s1)
   \<and> (\<exists>s2. ResetEvent 1 1 world_two = Inr (0, s2) \<and> signaled_manual 0 s2)
   \<and> (\<exists>s3. CreateEvent 1 True False world_two = Inr (2, s3) \<and> signaled_manual 0 s3)
   \<and> (\<exists>s4. WaitForEvent 1 1 5 clock0 [(0, [DoSetEvent 2 1])] world_two = Inr (0, s4)
           \<and> signaled_manual 0 s4)
   \<and> (\<exists>s5. WaitForMultipleEvents 1 [1, 0] 2 True 5 clock0 [(0, [DoSetEvent 2 1])] world_two
                = Inr (0, 0, s5) \<and> signaled_manual 0 s5)
   \<and> (\<exists>s6. ResetEvent 1 0 world_two = Inr (0, s6) \<and> \<not> State (events s6 ! 0))"
proof -
  let ?wk = "[(0 :: int, [DoSetEvent 2 1])]"
  let ?s1 = "world_two\<lparr>events := [ev_manual_set, ev_auto_clear\<lparr>State := True\<rparr>],
                        trace := [CondSignal 1 (EventCV 1)]\<rparr>"
  let ?s3 = "world_two\<lparr>events := [ev_manual_set, ev_auto_clear, ev_manual_set],
                        trace := [CondBroadcast 1 (EventCV 2)]\<rparr>"
  let ?d = "\<lparr>ts_sec = 1700000000, ts_nsec = 255000000\<rparr>"
  let ?s4 = "world_two\<lparr>trace := [CondTimedWait 1 (EventCV 1) ?d, CondSignal 2 (EventCV 1)]\<rparr>"
  let ?s5 = "world_two\<lparr>waiters := [None],
                        trace := [CondTimedWait 1 (WfmoCV 0) ?d, CondSignal 2 (WfmoCV 0),
                                  MutexDestroy 1 0 (Some 1), CondDestroy 1 0]\<rparr>"
  let ?s6 = "world_two\<lparr>events := [ev_manual_set\<lparr>State := False\<rparr>, ev_auto_clear]\<rparr>"
  have a: "signaled_manual 0 world_two" by code_simp
  have b: "EvMutex (events world_two ! 0) = None" by code_simp
  have c: "no_reset 0 ?wk" by (simp add: no_reset_def)
  have s1: "SetEvent 1 1 world_two = Inr (0, ?s1)" by code_simp
  have s2: "(1::nat) \<noteq> 0 \<and> ResetEvent 1 1 world_two = Inr (0, world_two)" by code_simp
  have s3: "CreateEvent 1 True False world_two = Inr (2, ?s3)" by code_simp
  have s4: "WaitForEvent 1 1 5 clock0 ?wk world_two = Inr (0, ?s4)" by code_simp
  have s5: "WaitForMultipleEvents 1 [1, 0] 2 True 5 clock0 ?wk world_two = Inr (0, 0, ?s5)"
    by code_simp
  have s6: "ResetEvent 1 0 world_two = Inr (0, ?s6)" by code_simp
  from single_wait_on_signaled_manual [OF a, of 1 5 clock0 ?wk 1 0 ?s1 world_two True False 2 ?s3 ?s4
      "[1, 0]" 2 True 0 ?s5 ?s6] b c s1 s2 s3 s4 s5 s6
  show ?thesis by (intro conjI) (simp_all only: simp_thms, blast+)
qed

section \<open>Case analysis of the operations\<close>

text \<open>One rule per operation: a call that returned went through one of the paths of
  the source, and each path names the steps it took.\<close>

lemma walk_auto_ConsE:
  assumes "walk_auto t e (i # q) s = Inr (ret, s')"
  obtains
    (departed) s1 r s2 s3 where
      "take_reference t (Waiter i) s = Inr s1" "get_wfmo (Waiter i) s1 = Inr r" "\<not> StillWaiting r"
      "drop_departed t (Waiter i) s1 = Inr s2" "pop_front e s2 = Inr s3"
      "walk_auto t e q s3 = Inr (ret, s')"
  | (live) s1 r s2 s3 s4 s5 where
      "take_reference t (Waiter i) s = Inr s1" "get_wfmo (Waiter i) s1 = Inr r" "StillWaiting r"
      "set_State e False s1 = Inr s2" "notify_waiter i s2 = Inr s3"
      "unlock_wfmo (Waiter i) s3 = Inr s4"
      "pop_front e (log_call (CondSignal t (WfmoCV (Waiter i))) s4) = Inr s5"
      "unlock_event e s5 = Inr s'" "ret = Some 0"
  using assms by (simp add: rbind_eq_Inr split: if_splits) blast+

lemma walk_manual_ConsE:
  assumes "walk_manual t (i # q) s = Inr s'"
  obtains
    (departed) s1 r s2 where
      "take_reference t (Waiter i) s = Inr s1" "get_wfmo (Waiter i) s1 = Inr r" "\<not> StillWaiting r"
      "drop_departed t (Waiter i) s1 = Inr s2" "walk_manual t q s2 = Inr s'"
  | (live) s1 r s2 s3 where
      "take_reference t (Waiter i) s = Inr s1" "get_wfmo (Waiter i) s1 = Inr r" "StillWaiting r"
      "notify_waiter i s1 = Inr s2" "unlock_wfmo (Waiter i) s2 = Inr s3"
      "walk_manual t q (log_call (CondSignal t (WfmoCV (Waiter i))) s3) = Inr s'"
  using assms by (simp add: rbind_eq_Inr split: if_splits) blast+

lemma SetEventE:
  assumes "SetEvent t e s = Inr (result, s')"
  obtains
    (handed) s1 s2 where
      "lock_event t e s = Inr s1" "set_State e True s1 = Inr s2" "AutoReset (events s2 ! e)"
      "walk_auto t e (RegisteredWaits (events s2 ! e)) s2 = Inr (Some result, s')"
  | (published) s1 s2 s3 s4 where
      "lock_event t e s = Inr s1" "set_State e True s1 = Inr s2" "AutoReset (events s2 ! e)"
      "walk_auto t e (RegisteredWaits (events s2 ! e)) s2 = Inr (None, s3)"
      "State (events s3 ! e)" "unlock_event e s3 = Inr s4"
      "s' = log_call (CondSignal t (EventCV e)) s4" "result = 0"
  | (unreachable) s1 s2 where
      "lock_event t e s = Inr s1" "set_State e True s1 = Inr s2" "AutoReset (events s2 ! e)"
      "walk_auto t e (RegisteredWaits (events s2 ! e)) s2 = Inr (None, s')"
      "\<not> State (events s' ! e)" "result = 0"
  | (manual) s1 s2 s3 s4 where
      "lock_event t e s = Inr s1" "set_State e True s1 = Inr s2" "\<not> AutoReset (events s2 ! e)"
      "walk_manual t (RegisteredWaits (events s2 ! e)) s2 = Inr s3" "e < length (events s3)"
      "unlock_event e (put_event e ((events s3 ! e)\<lparr>RegisteredWaits := []\<rparr>) s3) = Inr s4"
      "s' = log_call (CondBroadcast t (EventCV e)) s4" "result = 0"
proof -
  from assms obtain s1 s2 where s1: "lock_event t e s = Inr s1"
    and s2: "set_State e True s1 = Inr s2" and len: "e < length (events s2)"
    and rest: "(if AutoReset (events s2 ! e)
       then rbind (walk_auto t e (RegisteredWaits (events s2 ! e)) s2) (\<lambda>(ret, s3).
              case ret of
                Some result \<Rightarrow> Inr (result, s3)
              | None \<Rightarrow>
                  rbind (get_event e s3) (\<lambda>ev3.
                    if State ev3
                    then rbind (unlock_event e s3) (\<lambda>s4.
                           Inr (0, log_call (CondSignal t (EventCV e)) s4))
                    else Inr (0, s3)))
       else rbind (walk_manual t (RegisteredWaits (events s2 ! e)) s2) (\<lambda>s3.
            rbind (get_event e s3) (\<lambda>ev3.
            rbind (unlock_event e (put_event e (ev3\<lparr>RegisteredWaits := []\<rparr>) s3)) (\<lambda>s4.
              Inr (0, log_call (CondBroadcast t (EventCV e)) s4))))) = Inr (result, s')"
    by (auto simp: SetEvent_def rbind_eq_Inr)
  show thesis
  proof (cases "AutoReset (events s2 ! e)")
    case True
    with rest obtain ret s3 where w: "walk_auto t e (RegisteredWaits (events s2 ! e)) s2 = Inr (ret, s3)"
      and fin: "(case ret of Some result \<Rightarrow> Inr (result, s3)
              | None \<Rightarrow>
                  rbind (get_event e s3) (\<lambda>ev3.
                    if State ev3
                    then rbind (unlock_event e s3) (\<lambda>s4.
                           Inr (0, log_call (CondSignal t (EventCV e)) s4))
                    else Inr (0, s3))) = Inr (result, s')"
      by (auto simp: rbind_eq_Inr)
    show ?thesis
    proof (cases ret)
      case (Some r)
      with fin w s1 s2 True show ?thesis by (auto intro: handed)
    next
      case None
      show ?thesis
      proof (cases "State (events s3 ! e)")
        case True
        with fin None obtain s4 where "unlock_event e s3 = Inr s4"
          "s' = log_call (CondSignal t (EventCV e)) s4" "result = 0"
          by (auto simp: rbind_eq_Inr)
        with w s1 s2 None True \<open>AutoReset (events s2 ! e)\<close> show ?thesis
          by (auto intro: published)
      next
        case False
        with fin None have "s' = s3" "result = 0"
          by (auto simp: rbind_eq_Inr)
        with w s1 s2 None False \<open>AutoReset (events s2 ! e)\<close> show ?thesis
          by (auto intro: unreachable)
      qed
    qed
  next
    case False
    with rest obtain s3 s4 where "walk_manual t (RegisteredWaits (events s2 ! e)) s2 = Inr s3"
      "e < length (events s3)"
      "unlock_event e (put_event e ((events s3 ! e)\<lparr>RegisteredWaits := []\<rparr>) s3) = Inr s4"
      "s' = log_call (CondBroadcast t (EventCV e)) s4" "result = 0"
      by (auto simp: rbind_eq_Inr)
    with s1 s2 False show ?thesis
      by (auto intro: manual)
  qed
qed

lemma run_env_ConsE:
  assumes "run_env (a # as) s = Inr s'"
  obtains s1 where "perform a s = Inr s1" "run_env as s1 = Inr s'"
  using assms by (auto simp: rbind_eq_Inr)

lemma performE:
  assumes "perform a s = Inr s'"
  obtains (set) t e result where "a = DoSetEvent t e" "SetEvent t e s = Inr (result, s')"
  | (reset) t e result where "a = DoResetEvent t e" "ResetEvent t e s = Inr (result, s')"
  using assms by (cases a) (auto simp: rbind_eq_Inr)

lemma ResetEventE:
  assumes "ResetEvent t e s = Inr (result, s')"
  obtains s1 s2 where "lock_event t e s = Inr s1" "set_State e False s1 = Inr s2"
    "unlock_event e s2 = Inr s'" "result = 0"
  using assms by (auto simp: ResetEvent_def rbind_eq_Inr)

lemma cond_wait_eventE:
  assumes "cond_wait_event t e ts acts s = Inr s'"
  obtains s1 s2 where "unlock_event e (log_call (wait_call t (EventCV e) ts) s) = Inr s1"
    "run_env acts s1 = Inr s2" "lock_event t e s2 = Inr s'"
  using assms by (auto simp: cond_wait_event_def rbind_eq_Inr)

lemma cond_wait_wfmoE:
  assumes "cond_wait_wfmo t w ts acts s = Inr s'"
  obtains s1 s2 where "unlock_wfmo w (log_call (wait_call t (WfmoCV w) ts) s) = Inr s1"
    "run_env acts s1 = Inr s2" "lock_wfmo t w s2 = Inr s'"
  using assms by (auto simp: cond_wait_wfmo_def rbind_eq_Inr)

lemma wait_loop_ConsE:
  assumes "wait_loop t e ts ((rc, acts) # ws) s = Inr (result, s')"
  obtains
    (again) s1 where "cond_wait_event t e ts acts s = Inr s1" "rc = 0" "e < length (events s1)"
      "\<not> State (events s1 ! e)" "wait_loop t e ts ws s1 = Inr (result, s')"
  | (out) "cond_wait_event t e ts acts s = Inr s'" "e < length (events s')"
      "rc \<noteq> 0 \<or> State (events s' ! e)" "result = rc"
  using assms by (auto simp: rbind_eq_Inr split: if_splits)

lemma UnlockedWaitForEventE:
  assumes "UnlockedWaitForEvent t e ms tv wakeups s = Inr (result, s')"
  obtains
    (zero) "e < length (events s)" "\<not> State (events s ! e)" "ms = 0" "result = ETIMEDOUT" "s' = s"
  | (acquired) s1 where "e < length (events s)" "\<not> State (events s ! e)" "ms \<noteq> 0"
      "wait_loop t e (deadline_of tv ms) wakeups s = Inr (0, s1)" "e < length (events s1)"
      "AutoReset (events s1 ! e)" "set_State e False s1 = Inr s'" "result = 0"
  | (waited) "e < length (events s)" "\<not> State (events s ! e)" "ms \<noteq> 0"
      "wait_loop t e (deadline_of tv ms) wakeups s = Inr (result, s')" "e < length (events s')"
      "result \<noteq> 0 \<or> \<not> AutoReset (events s' ! e)"
  | (consumed) "e < length (events s)" "State (events s ! e)" "AutoReset (events s ! e)"
      "set_State e False s = Inr s'" "result = 0"
  | (sticky) "e < length (events s)" "State (events s ! e)" "\<not> AutoReset (events s ! e)"
      "s' = s" "result = 0"
  using assms
  by (simp add: UnlockedWaitForEvent_def rbind_eq_Inr split: if_splits prod.splits) blast+

lemma WaitForEventE:
  assumes "WaitForEvent t e ms tv wakeups s = Inr (result, s')"
  obtains s1 s2 where "lock_event t e s = Inr s1"
    "UnlockedWaitForEvent t e ms tv wakeups s1 = Inr (result, s2)" "unlock_event e s2 = Inr s'"
  using assms by (auto simp: WaitForEvent_def rbind_eq_Inr)

lemma register_loop_SucE:
  assumes "register_loop t evs w waitAll tv i (Suc n) s = Inr (dn, s')"
  obtains
    (counted) s1 s2 s3 r where "i < length evs" "lock_event t (evs ! i) s = Inr s1"
      "UnlockedWaitForEvent t (evs ! i) 0 tv [] s1 = Inr (0, s2)"
      "unlock_event (evs ! i) s2 = Inr s3" "get_wfmo w s3 = Inr r" "waitAll" "1 \<le> Status r"
      "register_loop t evs w waitAll tv (Suc i) n (put_wfmo w (r\<lparr>Status := Status r - 1\<rparr>) s3)
         = Inr (dn, s')"
  | (fired) s1 s2 s3 r where "i < length evs" "lock_event t (evs ! i) s = Inr s1"
      "UnlockedWaitForEvent t (evs ! i) 0 tv [] s1 = Inr (0, s2)"
      "unlock_event (evs ! i) s2 = Inr s3" "get_wfmo w s3 = Inr r" "\<not> waitAll" "dn"
      "s' = put_wfmo w (r\<lparr>Status := int i\<rparr>) s3"
  | (registered) s1 result s2 r s3 where "i < length evs" "lock_event t (evs ! i) s = Inr s1"
      "UnlockedWaitForEvent t (evs ! i) 0 tv [] s1 = Inr (result, s2)" "result \<noteq> 0"
      "evs ! i < length (events s2)" "get_wfmo w s2 = Inr r"
      "unlock_event (evs ! i)
         (put_wfmo w (r\<lparr>RefCount := RefCount r + 1\<rparr>)
            (put_event (evs ! i)
               ((events s2 ! (evs ! i))\<lparr>RegisteredWaits :=
                  RegisteredWaits (events s2 ! (evs ! i)) @ [\<lparr>Waiter = w, WaitIndex = int i\<rparr>]\<rparr>)
               s2)) = Inr s3"
      "register_loop t evs w waitAll tv (Suc i) n s3 = Inr (dn, s')"
proof -
  from assms obtain s1 result s2 where i: "i < length evs"
    and s1: "lock_event t (evs ! i) s = Inr s1"
    and s2: "UnlockedWaitForEvent t (evs ! i) 0 tv [] s1 = Inr (result, s2)"
    and rest: "(if result = 0
             then rbind (unlock_event (evs ! i) s2) (\<lambda>s3.
                  rbind (get_wfmo w s3) (\<lambda>r.
                    if waitAll
                    then (if Status r - 1 \<ge> 0
                          then register_loop t evs w waitAll tv (Suc i) n
                                 (put_wfmo w (r\<lparr>Status := Status r - 1\<rparr>) s3)
                          else Inl AssertFailed)
                    else Inr (True, put_wfmo w (r\<lparr>Status := int i\<rparr>) s3)))
             else rbind (get_event (evs ! i) s2) (\<lambda>ev.
                  rbind (get_wfmo w s2) (\<lambda>r.
                  rbind (unlock_event (evs ! i)
                           (put_wfmo w (r\<lparr>RefCount := RefCount r + 1\<rparr>)
                             (put_event (evs ! i)
                                (ev\<lparr>RegisteredWaits :=
                                      RegisteredWaits ev @ [\<lparr>Waiter = w, WaitIndex = int i\<rparr>]\<rparr>) s2)))
                    (\<lambda>s3. register_loop t evs w waitAll tv (Suc i) n s3)))) = Inr (dn, s')"
    by (auto simp: rbind_eq_Inr split: if_splits)
  show thesis
  proof (cases "result = 0")
    case True
    with rest obtain s3 r where s3: "unlock_event (evs ! i) s2 = Inr s3"
      and r: "get_wfmo w s3 = Inr r"
      and fin: "(if waitAll
                    then (if Status r - 1 \<ge> 0
                          then register_loop t evs w waitAll tv (Suc i) n
                                 (put_wfmo w (r\<lparr>Status := Status r - 1\<rparr>) s3)
                          else Inl AssertFailed)
                    else Inr (True, put_wfmo w (r\<lparr>Status := int i\<rparr>) s3)) = Inr (dn, s')"
      by (auto simp: rbind_eq_Inr)
    show ?thesis
    proof (cases waitAll)
      case True
      with fin have "1 \<le> Status r"
        "register_loop t evs w waitAll tv (Suc i) n (put_wfmo w (r\<lparr>Status := Status r - 1\<rparr>) s3)
           = Inr (dn, s')"
        by (auto split: if_splits)
      with i s1 s2 s3 r True \<open>result = 0\<close> show ?thesis
        by (auto intro: counted)
    next
      case False
      with fin have "dn" "s' = put_wfmo w (r\<lparr>Status := int i\<rparr>) s3"
        by auto
      with i s1 s2 s3 r False \<open>result = 0\<close> show ?thesis
        by (auto intro: fired)
    qed
  next
    case False
    with rest obtain r s3 where "evs ! i < length (events s2)" "get_wfmo w s2 = Inr r"
      "unlock_event (evs ! i)
         (put_wfmo w (r\<lparr>RefCount := RefCount r + 1\<rparr>)
            (put_event (evs ! i)
               ((events s2 ! (evs ! i))\<lparr>RegisteredWaits :=
                  RegisteredWaits (events s2 ! (evs ! i)) @ [\<lparr>Waiter = w, WaitIndex = int i\<rparr>]\<rparr>)
               s2)) = Inr s3"
      "register_loop t evs w waitAll tv (Suc i) n s3 = Inr (dn, s')"
      by (auto simp: rbind_eq_Inr)
    with i s1 s2 False show ?thesis
      by (auto intro: registered)
  qed
qed

lemma wfmo_loopE:
  assumes "wfmo_loop t w waitAll ts result wakeups s = Inr (result', s')"
  obtains
    (satisfied) r where "get_wfmo w s = Inr r" "satisfied waitAll r" "s' = s" "result' = result"
  | (failed) r rc acts ws where "get_wfmo w s = Inr r" "\<not> satisfied waitAll r"
      "wakeups = (rc, acts) # ws" "cond_wait_wfmo t w ts acts s = Inr s'" "rc \<noteq> 0" "result' = rc"
  | (again) r acts ws s1 where "get_wfmo w s = Inr r" "\<not> satisfied waitAll r"
      "wakeups = (0, acts) # ws" "cond_wait_wfmo t w ts acts s = Inr s1"
      "wfmo_loop t w waitAll ts 0 ws s1 = Inr (result', s')"
proof -
  from assms obtain r where r: "get_wfmo w s = Inr r"
    and rest: "(if satisfied waitAll r then Inr (result, s)
       else (case wakeups of
               [] \<Rightarrow> Inl NeverWoken
             | (rc, acts) # ws \<Rightarrow>
                 rbind (cond_wait_wfmo t w ts acts s) (\<lambda>s1.
                   if rc \<noteq> 0 then Inr (rc, s1)
                   else wfmo_loop t w waitAll ts rc ws s1))) = Inr (result', s')"
    by (subst (asm) wfmo_loop.simps) (auto simp: rbind_eq_Inr satisfied_def)
  show thesis
  proof (cases "satisfied waitAll r")
    case True
    with rest r show ?thesis by (auto intro: satisfied)
  next
    case False
    with rest obtain rc acts ws s1 where wk: "wakeups = (rc, acts) # ws"
      and s1: "cond_wait_wfmo t w ts acts s = Inr s1"
      and fin: "(if rc \<noteq> 0 then Inr (rc, s1) else wfmo_loop t w waitAll ts rc ws s1) = Inr (result', s')"
      by (auto simp: rbind_eq_Inr split: list.splits)
    show ?thesis
    proof (cases "rc = 0")
      case True
      with fin wk s1 r False show ?thesis by (auto intro: again)
    next
      case False
      with fin wk s1 r \<open>\<not> satisfied waitAll r\<close> show ?thesis by (auto intro: failed)
    qed
  qed
qed

lemma finalizeE:
  assumes "finalize t w result s = Inr (result', idx, s')"
  obtains
    (last) r s1 where "get_wfmo w s = Inr r" "RefCount r = 1"
      "Destroy t w (put_wfmo w (r\<lparr>StillWaiting := False, RefCount := RefCount r - 1\<rparr>) s) = Inr s1"
      "s' = delete_wfmo w s1" "idx = Status r" "result' = result"
  | (shared) r where "get_wfmo w s = Inr r" "RefCount r \<noteq> 1"
      "unlock_wfmo w (put_wfmo w (r\<lparr>StillWaiting := False, RefCount := RefCount r - 1\<rparr>) s) = Inr s'"
      "idx = Status r" "result' = result"
  using assms
  by (simp add: finalize_def Let_def rbind_eq_Inr split: if_splits) blast+

lemma WaitForMultipleEventsE:
  assumes "WaitForMultipleEvents t evs count waitAll ms tv wakeups s = Inr (result, idx, s')"
  obtains
    (found) s1 where
      "register_loop t evs (length (waiters s)) waitAll tv 0 (nat count) (new_wfmo t waitAll count s)
         = Inr (True, s1)"
      "finalize t (length (waiters s)) 0 s1 = Inr (result, idx, s')"
  | (zero) s1 where
      "register_loop t evs (length (waiters s)) waitAll tv 0 (nat count) (new_wfmo t waitAll count s)
         = Inr (False, s1)"
      "ms = 0" "finalize t (length (waiters s)) ETIMEDOUT s1 = Inr (result, idx, s')"
  | (waited) s1 r2 s2 where
      "register_loop t evs (length (waiters s)) waitAll tv 0 (nat count) (new_wfmo t waitAll count s)
         = Inr (False, s1)"
      "ms \<noteq> 0"
      "wfmo_loop t (length (waiters s)) waitAll (deadline_of tv ms) 0 wakeups s1 = Inr (r2, s2)"
      "finalize t (length (waiters s)) r2 s2 = Inr (result, idx, s')"
proof -
  from assms obtain dn s1 r2 s2 where
    s1: "register_loop t evs (length (waiters s)) waitAll tv 0 (nat count) (new_wfmo t waitAll count s)
          = Inr (dn, s1)"
    and s2: "(if \<not> dn
             then (if ms = 0 then Inr (ETIMEDOUT, s1)
                   else wfmo_loop t (length (waiters s)) waitAll (deadline_of tv ms) 0 wakeups s1)
             else Inr (0, s1)) = Inr (r2, s2)"
    and s3: "finalize t (length (waiters s)) r2 s2 = Inr (result, idx, s')"
    by (auto simp: WaitForMultipleEvents_def Let_def rbind_eq_Inr)
  show thesis
  proof (cases dn)
    case True
    with s1 s2 s3 show ?thesis by (auto intro: found)
  next
    case False
    show ?thesis
    proof (cases "ms = 0")
      case True
      with s1 s2 s3 \<open>\<not> dn\<close> show ?thesis by (auto intro: zero)
    next
      case False
      with s1 s2 s3 \<open>\<not> dn\<close> show ?thesis by (auto intro: waited)
    qed
  qed
qed

section \<open>Zero timeout\<close>

lemma event_ops_frame:
  "lock_event t e s = Inr s' \<Longrightarrow> waiters s' = waiters s \<and> trace s' = trace s"
  "unlock_event e s = Inr s' \<Longrightarrow> waiters s' = waiters s \<and> trace s' = trace s"
  "set_State e b s = Inr s' \<Longrightarrow> waiters s' = waiters s \<and> trace s' = trace s"
  "pop_front e s = Inr s' \<Longrightarrow> waiters s' = waiters s \<and> trace s' = trace s"
  by (auto simp: prim_Inr)

lemma UnlockedWaitForEvent_zero_frame:
  assumes "UnlockedWaitForEvent t e 0 tv wk s = Inr (result, s')"
  shows "waiters s' = waiters s \<and> trace s' = trace s"
  using assms by (cases rule: UnlockedWaitForEventE) (auto dest: event_ops_frame)

text \<open>The registration loop adds nothing to the trace and changes no wait record
  but its own, of which it changes \<open>Status\<close> and \<open>RefCount\<close> only.\<close>

lemma register_loop_frame:
  assumes "register_loop t evs w waitAll tv i n s = Inr (dn, s')"
    and "w < length (waiters s)" and "waiters s ! w = Some r"
  shows "trace s' = trace s \<and> length (waiters s') = length (waiters s)
     \<and> (\<forall>w'. w' \<noteq> w \<longrightarrow> waiters s' ! w' = waiters s ! w')
     \<and> (\<exists>r'. waiters s' ! w = Some r' \<and> Mutex r' = Mutex r \<and> StillWaiting r' = StillWaiting r
            \<and> WaitAll r' = WaitAll r)"
  using assms
proof (induction n arbitrary: i s r)
  case 0
  then show ?case by simp
next
  case (Suc n)
  from Suc.prems(1) show ?case
  proof (cases rule: register_loop_SucE)
    case (counted s1 s2 s3 r3)
    have fr: "waiters s3 = waiters s" "trace s3 = trace s"
      using counted(2,3,4) by (auto dest!: event_ops_frame UnlockedWaitForEvent_zero_frame)
    with counted(5) Suc.prems(3) have r3: "r3 = r" by simp
    let ?s4 = "put_wfmo w (r\<lparr>Status := Status r - 1\<rparr>) s3"
    have "w < length (waiters ?s4)" "waiters ?s4 ! w = Some (r\<lparr>Status := Status r - 1\<rparr>)"
      using Suc.prems(2) fr by simp_all
    from Suc.IH [OF counted(8) [unfolded r3] this] fr Suc.prems(2) show ?thesis
      by (auto simp: nth_list_update)
  next
    case (fired s1 s2 s3 r3)
    have fr: "waiters s3 = waiters s" "trace s3 = trace s"
      using fired(2,3,4) by (auto dest!: event_ops_frame UnlockedWaitForEvent_zero_frame)
    with fired(5) Suc.prems(3) have r3: "r3 = r" by simp
    show ?thesis
      using fired(8) fr r3 Suc.prems(2) by (auto simp: nth_list_update)
  next
    case (registered s1 result s2 r2 s3)
    have fr: "waiters s2 = waiters s" "trace s2 = trace s"
      using registered(2,3) by (auto dest!: event_ops_frame UnlockedWaitForEvent_zero_frame)
    with registered(6) Suc.prems(3) have r2: "r2 = r" by simp
    have fr3: "waiters s3 = (waiters s)[w := Some (r\<lparr>RefCount := RefCount r + 1\<rparr>)]" "trace s3 = trace s"
      using registered(7) fr r2 by (auto dest!: event_ops_frame)
    then have "w < length (waiters s3)" "waiters s3 ! w = Some (r\<lparr>RefCount := RefCount r + 1\<rparr>)"
      using Suc.prems(2) by simp_all
    from Suc.IH [OF registered(8) this] fr3 Suc.prems(2) show ?thesis
      by (auto simp: nth_list_update)
  qed
qed

lemma new_wfmo_sel [simp]:
  "events (new_wfmo t waitAll count s) = events s"
  "trace (new_wfmo t waitAll count s) = trace s"
  "length (waiters (new_wfmo t waitAll count s)) = Suc (length (waiters s))"
  "waiters (new_wfmo t waitAll count s) ! length (waiters s) =
     Some \<lparr>Mutex = Some t, Status = (if waitAll then count else - 1),
            StillWaiting = True, RefCount = 1, WaitAll = waitAll\<rparr>"
  "k < length (waiters s) \<Longrightarrow> waiters (new_wfmo t waitAll count s) ! k = waiters s ! k"
  by (simp_all add: new_wfmo_def nth_append)

lemma finalize_trace:
  assumes "get_wfmo w s = Inr r" and "Mutex r = Some t"
  shows "\<exists>s'. finalize t w result s = Inr (result, Status r, s')
     \<and> (trace s' = trace s \<or> trace s' = trace s @ [MutexDestroy t w (Some t), CondDestroy t w])"
proof -
  from assms(1) have w: "w < length (waiters s)" "waiters s ! w = Some r"
    by simp_all
  with assms(2) show ?thesis
    by (simp add: finalize_def Let_def Destroy_def unlock_wfmo_def get_wfmo_def)
qed

text \<open>
  C6. A wait with \<open>milliseconds = 0\<close> on a non-signaled event (and, for
  \<open>WaitForMultipleEvents\<close>, when the wait is not already satisfied after the
  registration pass) returns TIMEOUT without ever blocking on a condition wait.

  \<open>WaitForEvent\<close> returns \<open>ETIMEDOUT\<close> and the very state it was called in, trace
  included, for every list of wake-ups. \<open>WaitForMultipleEvents\<close>, once its
  registration loop has ended with \<open>done\<close> false (which a wait for all always does),
  returns \<open>ETIMEDOUT\<close> for every list of wake-ups, the empty one included, and the
  trace of the call holds no wait: it is empty, or the destruction of the record.
\<close>

theorem zero_timeout_never_blocks:
  "(e < length (events s) \<and> \<not> State (events s ! e) \<and> EvMutex (events s ! e) = None
      \<longrightarrow> WaitForEvent t e 0 tv wakeups s = Inr (ETIMEDOUT, s))
   \<and> (register_loop t evs (length (waiters s)) waitAll tv 0 (nat count) (new_wfmo t waitAll count s)
         = Inr (False, s1)
      \<longrightarrow> (\<exists>idx s'. WaitForMultipleEvents t evs count waitAll 0 tv wakeups s = Inr (ETIMEDOUT, idx, s')
             \<and> (trace s' = trace s
                 \<or> trace s' = trace s @ [MutexDestroy t (length (waiters s)) (Some t),
                                         CondDestroy t (length (waiters s))])))"
proof (intro conjI impI)
  assume "e < length (events s) \<and> \<not> State (events s ! e) \<and> EvMutex (events s ! e) = None"
  then show "WaitForEvent t e 0 tv wakeups s = Inr (ETIMEDOUT, s)"
    by (simp add: WaitForEvent_def UnlockedWaitForEvent_def get_event_def
        lock_event_def unlock_event_def put_event_def EvMutex_update_same)
next
  let ?w = "length (waiters s)"
  assume reg: "register_loop t evs ?w waitAll tv 0 (nat count) (new_wfmo t waitAll count s)
                 = Inr (False, s1)"
  from register_loop_frame [OF reg] obtain r' where
    fr: "trace s1 = trace s" "length (waiters s1) = Suc ?w" "waiters s1 ! ?w = Some r'"
      "Mutex r' = Some t"
    by auto
  then have "get_wfmo ?w s1 = Inr r'"
    by simp
  from finalize_trace [OF this fr(4), of ETIMEDOUT] reg fr(1)
  show "\<exists>idx s'. WaitForMultipleEvents t evs count waitAll 0 tv wakeups s = Inr (ETIMEDOUT, idx, s')
             \<and> (trace s' = trace s
                 \<or> trace s' = trace s @ [MutexDestroy t ?w (Some t), CondDestroy t ?w])"
    by (auto simp: WaitForMultipleEvents_def Let_def)
qed

theorem zero_timeout_never_blocks_witness:
  "1 < length (events world_two) \<and> \<not> State (events world_two ! 1)
   \<and> EvMutex (events world_two ! 1) = None
   \<and> WaitForEvent 3 1 0 clock0 [] world_two = Inr (ETIMEDOUT, world_two)
   \<and> (\<exists>s1. register_loop 3 [1] (length (waiters world_two)) False clock0 0 (nat 1)
               (new_wfmo 3 False 1 world_two) = Inr (False, s1))
   \<and> (\<exists>idx s'. WaitForMultipleEvents 3 [1] 1 False 0 clock0 [] world_two = Inr (ETIMEDOUT, idx, s')
          \<and> (trace s' = trace world_two
              \<or> trace s' = trace world_two @ [MutexDestroy 3 (length (waiters world_two)) (Some 3),
                                              CondDestroy 3 (length (waiters world_two))]))"
proof -
  let ?s1 = "world_two\<lparr>events := [ev_manual_set,
                 ev_auto_clear\<lparr>RegisteredWaits := [\<lparr>Waiter = 0, WaitIndex = 0\<rparr>]\<rparr>],
               waiters := [Some \<lparr>Mutex = Some 3, Status = - 1, StillWaiting = True, RefCount = 2,
                                 WaitAll = False\<rparr>]\<rparr>"
  have a: "1 < length (events world_two) \<and> \<not> State (events world_two ! 1)
             \<and> EvMutex (events world_two ! 1) = None"
    by code_simp
  have b: "register_loop 3 [1] (length (waiters world_two)) False clock0 0 (nat 1)
             (new_wfmo 3 False 1 world_two) = Inr (False, ?s1)"
    by code_simp
  from zero_timeout_never_blocks [of 1 world_two 3 clock0 "[]" "[1]" False 1 ?s1] a b
  show ?thesis by blast
qed

section \<open>The index returned by a wait for all\<close>

text \<open>
  C2. The claim: the out-parameter \<open>fired_index\<close> of a completed
  \<open>WaitForMultipleEvents\<close> is -1 exactly when no event was observed; it is -1 on
  TIMEOUT and on \<open>wait_all\<close> returns, and the index of the event observed on a
  success with \<open>wait_all = false\<close>.

  Line 332 reads \<open>Status.FiredEvent\<close> whatever \<open>waitAll\<close> is, and for a wait for
  all that cell holds \<open>EventsLeft\<close>. A wait for all on one non-signaled event with
  timeout 0 returns \<open>ETIMEDOUT\<close> with index 1, the number of events left; the same
  wait with a timeout, woken by a \<open>SetEvent\<close> of another thread, returns 0 with
  index 0. Neither index is -1.
\<close>

theorem wait_all_index_is_events_left:
  "WaitForMultipleEvents 3 [1] 1 True 0 clock0 [] world_two =
     Inr (ETIMEDOUT, 1,
          world_two\<lparr>events := [ev_manual_set,
                         ev_auto_clear\<lparr>RegisteredWaits := [\<lparr>Waiter = 0, WaitIndex = 0\<rparr>]\<rparr>],
                      waiters := [Some \<lparr>Mutex = None, Status = 1, StillWaiting = False,
                                        RefCount = 1, WaitAll = True\<rparr>]\<rparr>)
   \<and> WaitForMultipleEvents 3 [1] 1 True 5 clock0 [(0, [DoSetEvent 2 1])] world_two =
     Inr (0, 0,
          world_two\<lparr>waiters := [None],
                      trace := [CondTimedWait 3 (WfmoCV 0) \<lparr>ts_sec = 1700000000, ts_nsec = 255000000\<rparr>,
                                CondSignal 2 (WfmoCV 0), MutexDestroy 3 0 (Some 3),
                                CondDestroy 3 0]\<rparr>)"
  by code_simp

section \<open>A wait on no event\<close>

lemma register_loop_0 [simp]: "register_loop t evs w waitAll tv i (nat 0) s = Inr (False, s)"
  by simp

text \<open>With a timeout other than 0 the wait for all on no event succeeds at once: the
  loop of line 308 finds \<open>EventsLeft = 0\<close> before any wait.\<close>

lemma wait_all_nothing_nonzero_timeout:
  "milliseconds \<noteq> 0 \<Longrightarrow>
   WaitForMultipleEvents t evs 0 True milliseconds tv wakeups s =
     Inr (0, 0,
          s\<lparr>waiters := waiters s @ [None],
            trace := trace s @ [MutexDestroy t (length (waiters s)) (Some t),
                                CondDestroy t (length (waiters s))]\<rparr>)"
  by (simp add: WaitForMultipleEvents_def Let_def finalize_def new_wfmo_def Destroy_def
      get_wfmo_def put_wfmo_def delete_wfmo_def log_call_def wfmo_loop.simps)

text \<open>
  C9. The claim: \<open>WaitForMultipleEvents\<close> with \<open>count = 0\<close> and \<open>wait_all = true\<close>
  returns success immediately, \<open>events_left\<close> starting at 0; with
  \<open>wait_all = false\<close> it returns TIMEOUT after every finite nonzero timeout and
  blocks for ever with the infinite one.

  With \<open>milliseconds = 0\<close> the test of line 291 comes before the loop that would
  find \<open>EventsLeft = 0\<close>: whatever the state, the thread, the array and the
  wake-ups, the wait for all on no event returns \<open>ETIMEDOUT\<close>.
\<close>

theorem wait_all_nothing_zero_timeout:
  "WaitForMultipleEvents t evs 0 True 0 tv wakeups s =
     Inr (ETIMEDOUT, 0,
          s\<lparr>waiters := waiters s @ [None],
            trace := trace s @ [MutexDestroy t (length (waiters s)) (Some t),
                                CondDestroy t (length (waiters s))]\<rparr>)"
  by (simp add: WaitForMultipleEvents_def Let_def finalize_def new_wfmo_def Destroy_def
      get_wfmo_def put_wfmo_def delete_wfmo_def log_call_def)

section \<open>The signaled flags in the registration loop\<close>

lemma states_frame [simp]:
  "states (log_call c s) = states s"
  "states (put_wfmo w r s) = states s"
  "states (delete_wfmo w s) = states s"
  "states (new_wfmo t waitAll count s) = states s"
  by (simp_all add: states_def)



lemma wfmo_ops_states:
  "lock_wfmo t w s = Inr s' \<Longrightarrow> states s' = states s"
  "unlock_wfmo w s = Inr s' \<Longrightarrow> states s' = states s"
  by (auto simp: states_def dest: wfmo_ops_events)

lemma quiet_Cons [simp]: "quiet ((rc, acts) # ws) \<longleftrightarrow> acts = [] \<and> quiet ws"
  by (auto simp: quiet_def)






section \<open>Records are destroyed with their mutex held\<close>

lemma frees_ok_refl [simp]: "frees_ok s s"
  by (auto simp: frees_ok_def frees_locked_def)

lemma frees_ok_trans [trans]: "frees_ok s s1 \<Longrightarrow> frees_ok s1 s2 \<Longrightarrow> frees_ok s s2"
proof -
  assume "frees_ok s s1" "frees_ok s1 s2"
  then obtain d1 d2 where d1: "frees_locked s s1 d1" and d2: "frees_locked s1 s2 d2"
    by (auto simp: frees_ok_def)
  have "frees_locked s s2 (d1 @ d2)"
    unfolding frees_locked_def
  proof (intro conjI allI impI)
    show "trace s2 = trace s @ d1 @ d2"
      using d1 d2 by (simp add: frees_locked_def)
    show "list_all locked_destroy (d1 @ d2)"
      using d1 d2 by (simp add: frees_locked_def)
    show "length (waiters s) \<le> length (waiters s2)"
      using d1 d2 by (simp add: frees_locked_def)
  next
    fix w assume w: "w < length (waiters s2)" "waiters s2 ! w = None"
    with d2 have "(w < length (waiters s1) \<and> waiters s1 ! w = None)
        \<or> (\<exists>t. MutexDestroy t w (Some t) \<in> set d2)"
      by (simp add: frees_locked_def)
    then show "(w < length (waiters s) \<and> waiters s ! w = None)
        \<or> (\<exists>t. MutexDestroy t w (Some t) \<in> set (d1 @ d2))"
    proof
      assume "w < length (waiters s1) \<and> waiters s1 ! w = None"
      with d1 have "(w < length (waiters s) \<and> waiters s ! w = None)
        \<or> (\<exists>t. MutexDestroy t w (Some t) \<in> set d1)"
        by (simp add: frees_locked_def)
      then show ?thesis by auto
    qed auto
  qed
  then show ?thesis by (auto simp: frees_ok_def)
qed

lemma frees_ok_same: "waiters s' = waiters s \<Longrightarrow> trace s' = trace s \<Longrightarrow> frees_ok s s'"
  by (auto simp: frees_ok_def frees_locked_def)

lemma frees_ok_cong:
  "waiters a = waiters a' \<Longrightarrow> trace a = trace a' \<Longrightarrow> waiters b = waiters b' \<Longrightarrow> trace b = trace b'
   \<Longrightarrow> frees_ok a b = frees_ok a' b'"
  by (simp add: frees_ok_def frees_locked_def)

lemma frees_ok_event_ops:
  "lock_event t e s = Inr s' \<Longrightarrow> frees_ok s s'"
  "unlock_event e s = Inr s' \<Longrightarrow> frees_ok s s'"
  "set_State e b s = Inr s' \<Longrightarrow> frees_ok s s'"
  "pop_front e s = Inr s' \<Longrightarrow> frees_ok s s'"
  by (auto dest!: event_ops_frame intro: frees_ok_same)

lemma frees_ok_put_event [simp]:
  "frees_ok s (put_event e ev s') = frees_ok s s'"
  "frees_ok (put_event e ev s) s' = frees_ok s s'"
  by (simp_all add: frees_ok_def frees_locked_def)

lemma update_Some_None: "k < length xs \<Longrightarrow> xs[w := Some r] ! k = None \<Longrightarrow> xs ! k = None"
  by (cases "k = w") auto

lemma update_None_cases: "k < length xs \<Longrightarrow> xs[w := None] ! k = None \<Longrightarrow> k = w \<or> xs ! k = None"
  by (cases "k = w") auto

lemma frees_ok_put_wfmo: "frees_ok s (put_wfmo w r s)"
  unfolding frees_ok_def frees_locked_def
  by (rule exI [of _ "[]"]) (auto dest: update_Some_None)

lemma frees_ok_log: "locked_destroy c \<Longrightarrow> frees_ok s (log_call c s)"
  unfolding frees_ok_def frees_locked_def
  by (rule exI [of _ "[c]"]) auto

lemma frees_ok_wfmo_ops:
  "lock_wfmo t w s = Inr s' \<Longrightarrow> frees_ok s s'"
  "unlock_wfmo w s = Inr s' \<Longrightarrow> frees_ok s s'"
  "take_reference t w s = Inr s' \<Longrightarrow> frees_ok s s'"
  "notify_waiter i s = Inr s' \<Longrightarrow> frees_ok s s'"
  by (auto simp: prim_Inr frees_ok_put_wfmo)

lemma frees_ok_drop_departed:
  assumes "drop_departed t w s = Inr s'" and "waiters s ! w = Some r" and "Mutex r = Some t"
  shows "frees_ok s s'"
proof (cases "RefCount r = 0")
  case True
  with assms have s': "s' = delete_wfmo w (log_call (CondDestroy t w)
                                 (log_call (MutexDestroy t w (Some t)) s))"
    by (auto simp: prim_Inr)
  show ?thesis
    unfolding frees_ok_def frees_locked_def s'
    by (rule exI [of _ "[MutexDestroy t w (Some t), CondDestroy t w]"])
       (auto dest: update_None_cases)
next
  case False
  with assms show ?thesis
    by (auto simp: prim_Inr frees_ok_put_wfmo)
qed

lemma take_reference_owner:
  "take_reference t w s = Inr s' \<Longrightarrow> \<exists>r. waiters s' ! w = Some r \<and> Mutex r = Some t"
  by (auto simp: prim_Inr)

lemma locked_destroy_wait_call [simp]: "locked_destroy (wait_call t c ts)"
  by (simp add: wait_call_def split: option.splits)

lemma walk_auto_frees:
  "walk_auto t e q s = Inr (ret, s') \<Longrightarrow> frees_ok s s'"
proof (induction q arbitrary: s)
  case Nil
  then show ?case by simp
next
  case (Cons i q)
  from Cons.prems show ?case
  proof (cases rule: walk_auto_ConsE)
    case (departed s1 r s2 s3)
    have "frees_ok s s1" using departed(1) by (rule frees_ok_wfmo_ops)
    also have "frees_ok s1 s2"
      using take_reference_owner [OF departed(1)] departed(4)
      by (auto intro: frees_ok_drop_departed)
    also have "frees_ok s2 s3" using departed(5) by (rule frees_ok_event_ops)
    also have "frees_ok s3 s'" using departed(6) by (rule Cons.IH)
    finally show ?thesis .
  next
    case (live s1 r s2 s3 s4 s5)
    have "frees_ok s s1" using live(1) by (rule frees_ok_wfmo_ops)
    also have "frees_ok s1 s2" using live(4) by (rule frees_ok_event_ops)
    also have "frees_ok s2 s3" using live(5) by (rule frees_ok_wfmo_ops)
    also have "frees_ok s3 s4" using live(6) by (rule frees_ok_wfmo_ops)
    also have "frees_ok s4 (log_call (CondSignal t (WfmoCV (Waiter i))) s4)"
      by (simp add: frees_ok_log)
    also have "frees_ok (log_call (CondSignal t (WfmoCV (Waiter i))) s4) s5"
      using live(7) by (rule frees_ok_event_ops)
    also have "frees_ok s5 s'" using live(8) by (rule frees_ok_event_ops)
    finally show ?thesis .
  qed
qed

lemma walk_manual_frees:
  "walk_manual t q s = Inr s' \<Longrightarrow> frees_ok s s'"
proof (induction q arbitrary: s)
  case Nil
  then show ?case by simp
next
  case (Cons i q)
  from Cons.prems show ?case
  proof (cases rule: walk_manual_ConsE)
    case (departed s1 r s2)
    have "frees_ok s s1" using departed(1) by (rule frees_ok_wfmo_ops)
    also have "frees_ok s1 s2"
      using take_reference_owner [OF departed(1)] departed(4)
      by (auto intro: frees_ok_drop_departed)
    also have "frees_ok s2 s'" using departed(5) by (rule Cons.IH)
    finally show ?thesis .
  next
    case (live s1 r s2 s3)
    have "frees_ok s s1" using live(1) by (rule frees_ok_wfmo_ops)
    also have "frees_ok s1 s2" using live(4) by (rule frees_ok_wfmo_ops)
    also have "frees_ok s2 s3" using live(5) by (rule frees_ok_wfmo_ops)
    also have "frees_ok s3 (log_call (CondSignal t (WfmoCV (Waiter i))) s3)"
      by (simp add: frees_ok_log)
    also have "frees_ok (log_call (CondSignal t (WfmoCV (Waiter i))) s3) s'"
      using live(6) by (rule Cons.IH)
    finally show ?thesis .
  qed
qed

lemma SetEvent_frees:
  assumes "SetEvent t e s = Inr (result, s')"
  shows "frees_ok s s'"
  using assms
proof (cases rule: SetEventE)
  case (handed s1 s2)
  have "frees_ok s s1" using handed(1) by (rule frees_ok_event_ops)
  also have "frees_ok s1 s2" using handed(2) by (rule frees_ok_event_ops)
  also have "frees_ok s2 s'" using handed(4) by (rule walk_auto_frees)
  finally show ?thesis .
next
  case (published s1 s2 s3 s4)
  have "frees_ok s s1" using published(1) by (rule frees_ok_event_ops)
  also have "frees_ok s1 s2" using published(2) by (rule frees_ok_event_ops)
  also have "frees_ok s2 s3" using published(4) by (rule walk_auto_frees)
  also have "frees_ok s3 s4" using published(6) by (rule frees_ok_event_ops)
  also have "frees_ok s4 s'" unfolding published(7) by (simp add: frees_ok_log)
  finally show ?thesis .
next
  case (unreachable s1 s2)
  have "frees_ok s s1" using unreachable(1) by (rule frees_ok_event_ops)
  also have "frees_ok s1 s2" using unreachable(2) by (rule frees_ok_event_ops)
  also have "frees_ok s2 s'" using unreachable(4) by (rule walk_auto_frees)
  finally show ?thesis .
next
  case (manual s1 s2 s3 s4)
  have "frees_ok s s1" using manual(1) by (rule frees_ok_event_ops)
  also have "frees_ok s1 s2" using manual(2) by (rule frees_ok_event_ops)
  also have "frees_ok s2 s3" using manual(4) by (rule walk_manual_frees)
  also have "frees_ok s3 (put_event e ((events s3 ! e)\<lparr>RegisteredWaits := []\<rparr>) s3)"
    by simp
  also have "frees_ok (put_event e ((events s3 ! e)\<lparr>RegisteredWaits := []\<rparr>) s3) s4"
    using manual(6) by (rule frees_ok_event_ops)
  also have "frees_ok s4 s'" unfolding manual(7) by (simp add: frees_ok_log)
  finally show ?thesis .
qed

lemma ResetEvent_frees:
  assumes "ResetEvent t e s = Inr (result, s')"
  shows "frees_ok s s'"
  using assms
proof (cases rule: ResetEventE)
  case (1 s1 s2)
  have "frees_ok s s1" using 1(1) by (rule frees_ok_event_ops)
  also have "frees_ok s1 s2" using 1(2) by (rule frees_ok_event_ops)
  also have "frees_ok s2 s'" using 1(3) by (rule frees_ok_event_ops)
  finally show ?thesis .
qed

lemma perform_frees: "perform a s = Inr s' \<Longrightarrow> frees_ok s s'"
  by (erule performE) (auto dest: SetEvent_frees ResetEvent_frees)

lemma run_env_frees: "run_env acts s = Inr s' \<Longrightarrow> frees_ok s s'"
proof (induction acts arbitrary: s)
  case Nil
  then show ?case by simp
next
  case (Cons a acts)
  from Cons.prems obtain s1 where "perform a s = Inr s1" "run_env acts s1 = Inr s'"
    by (rule run_env_ConsE)
  then have "frees_ok s s1" "frees_ok s1 s'"
    by (auto intro: perform_frees Cons.IH)
  then show ?case by (rule frees_ok_trans)
qed

lemma UnlockedWaitForEvent_zero_frees:
  "UnlockedWaitForEvent t e 0 tv wk s = Inr (result, s') \<Longrightarrow> frees_ok s s'"
  by (auto dest!: UnlockedWaitForEvent_zero_frame intro: frees_ok_same)

lemma register_loop_frees:
  "register_loop t evs w waitAll tv i n s = Inr (dn, s') \<Longrightarrow> frees_ok s s'"
proof (induction n arbitrary: i s)
  case 0
  then show ?case by simp
next
  case (Suc n)
  from Suc.prems show ?case
  proof (cases rule: register_loop_SucE)
    case (counted s1 s2 s3 r)
    have "frees_ok s s1" using counted(2) by (rule frees_ok_event_ops)
    also have "frees_ok s1 s2" using counted(3) by (rule UnlockedWaitForEvent_zero_frees)
    also have "frees_ok s2 s3" using counted(4) by (rule frees_ok_event_ops)
    also have "frees_ok s3 (put_wfmo w (r\<lparr>Status := Status r - 1\<rparr>) s3)"
      by (rule frees_ok_put_wfmo)
    also have "frees_ok (put_wfmo w (r\<lparr>Status := Status r - 1\<rparr>) s3) s'"
      using counted(8) by (rule Suc.IH)
    finally show ?thesis .
  next
    case (fired s1 s2 s3 r)
    have "frees_ok s s1" using fired(2) by (rule frees_ok_event_ops)
    also have "frees_ok s1 s2" using fired(3) by (rule UnlockedWaitForEvent_zero_frees)
    also have "frees_ok s2 s3" using fired(4) by (rule frees_ok_event_ops)
    also have "frees_ok s3 s'" unfolding fired(8) by (rule frees_ok_put_wfmo)
    finally show ?thesis .
  next
    case (registered s1 result s2 r s3)
    let ?ev = "(events s2 ! (evs ! i))\<lparr>RegisteredWaits :=
                  RegisteredWaits (events s2 ! (evs ! i)) @ [\<lparr>Waiter = w, WaitIndex = int i\<rparr>]\<rparr>"
    let ?s = "put_wfmo w (r\<lparr>RefCount := RefCount r + 1\<rparr>) (put_event (evs ! i) ?ev s2)"
    have "frees_ok s s1" using registered(2) by (rule frees_ok_event_ops)
    also have "frees_ok s1 s2" using registered(3) by (rule UnlockedWaitForEvent_zero_frees)
    also have "frees_ok s2 (put_event (evs ! i) ?ev s2)" by simp
    also have "frees_ok (put_event (evs ! i) ?ev s2) ?s" by (rule frees_ok_put_wfmo)
    also have "frees_ok ?s s3" using registered(7) by (rule frees_ok_event_ops)
    also have "frees_ok s3 s'" using registered(8) by (rule Suc.IH)
    finally show ?thesis .
  qed
qed

lemma cond_wait_wfmo_frees:
  assumes "cond_wait_wfmo t w ts acts s = Inr s'"
  shows "frees_ok s s' \<and> owned t w s'"
  using assms
proof (cases rule: cond_wait_wfmoE)
  case (1 s1 s2)
  have "frees_ok s (log_call (wait_call t (WfmoCV w) ts) s)"
    by (simp add: frees_ok_log)
  also have "frees_ok (log_call (wait_call t (WfmoCV w) ts) s) s1"
    using 1(1) by (rule frees_ok_wfmo_ops)
  also have "frees_ok s1 s2" using 1(2) by (rule run_env_frees)
  also have "frees_ok s2 s'" using 1(3) by (rule frees_ok_wfmo_ops)
  finally have "frees_ok s s'" .
  moreover have "owned t w s'"
    using 1(3) by (auto simp: prim_Inr owned_def)
  ultimately show ?thesis ..
qed

lemma wfmo_loop_frees:
  "wfmo_loop t w waitAll ts result wakeups s = Inr (result', s') \<Longrightarrow> owned t w s
   \<Longrightarrow> frees_ok s s' \<and> owned t w s'"
proof (induction wakeups arbitrary: s result)
  case Nil
  from Nil.prems(1) show ?case
    by (cases rule: wfmo_loopE) (use Nil.prems(2) in auto)
next
  case (Cons wk ws)
  from Cons.prems(1) show ?case
  proof (cases rule: wfmo_loopE)
    case (satisfied r)
    with Cons.prems(2) show ?thesis by simp
  next
    case (failed r rc acts ws')
    then show ?thesis by (auto dest: cond_wait_wfmo_frees)
  next
    case (again r acts ws' s1)
    from cond_wait_wfmo_frees [OF again(4)] have 1: "frees_ok s s1" "owned t w s1"
      by simp_all
    from again(3,5) have "wfmo_loop t w waitAll ts 0 ws s1 = Inr (result', s')"
      by simp
    from Cons.IH [OF this 1(2)] 1(1) show ?thesis
      by (auto intro: frees_ok_trans)
  qed
qed

lemma finalize_frees:
  assumes "finalize t w result s = Inr (result', idx, s')" and "owned t w s"
  shows "frees_ok s s'"
  using assms(1)
proof (cases rule: finalizeE)
  case (last r s1)
  let ?r = "r\<lparr>StillWaiting := False, RefCount := RefCount r - 1\<rparr>"
  from last(1) assms(2) have own: "Mutex r = Some t" "w < length (waiters s)"
    by (auto simp: owned_def)
  with last(3,4) have s': "s' = delete_wfmo w (log_call (CondDestroy t w)
       (log_call (MutexDestroy t w (Some t)) (put_wfmo w ?r s)))"
    by (auto simp: prim_Inr)
  show ?thesis
    unfolding frees_ok_def frees_locked_def s'
    by (rule exI [of _ "[MutexDestroy t w (Some t), CondDestroy t w]"])
       (auto dest: update_None_cases)
next
  case (shared r)
  have "frees_ok s (put_wfmo w (r\<lparr>StillWaiting := False, RefCount := RefCount r - 1\<rparr>) s)"
    by (rule frees_ok_put_wfmo)
  also have "frees_ok (put_wfmo w (r\<lparr>StillWaiting := False, RefCount := RefCount r - 1\<rparr>) s) s'"
    using shared(3) by (rule frees_ok_wfmo_ops)
  finally show ?thesis .
qed

lemma new_wfmo_frees: "frees_ok s (new_wfmo t waitAll count s)"
  unfolding frees_ok_def frees_locked_def
  by (rule exI [of _ "[]"]) (auto simp: new_wfmo_def nth_append split: if_splits)

lemma register_loop_owned:
  assumes "register_loop t evs w waitAll tv i n s = Inr (dn, s')" and "owned t w s"
  shows "owned t w s'"
proof -
  from assms(2) obtain r where "w < length (waiters s)" "waiters s ! w = Some r" "Mutex r = Some t"
    by (auto simp: owned_def)
  with register_loop_frame [OF assms(1) this(1,2)] show ?thesis
    by (auto simp: owned_def)
qed

lemma WaitForMultipleEvents_frees:
  assumes "WaitForMultipleEvents t evs count waitAll ms tv wakeups s = Inr (result, idx, s')"
  shows "frees_ok s s'"
proof -
  let ?w = "length (waiters s)"
  let ?s0 = "new_wfmo t waitAll count s"
  have own0: "owned t ?w ?s0"
    by (simp add: owned_def)
  from assms show ?thesis
  proof (cases rule: WaitForMultipleEventsE)
    case (found s1)
    have "frees_ok s ?s0" by (rule new_wfmo_frees)
    also have "frees_ok ?s0 s1" using found(1) by (rule register_loop_frees)
    also have "frees_ok s1 s'"
      using found(2) register_loop_owned [OF found(1) own0] by (rule finalize_frees)
    finally show ?thesis .
  next
    case (zero s1)
    have "frees_ok s ?s0" by (rule new_wfmo_frees)
    also have "frees_ok ?s0 s1" using zero(1) by (rule register_loop_frees)
    also have "frees_ok s1 s'"
      using zero(3) register_loop_owned [OF zero(1) own0] by (rule finalize_frees)
    finally show ?thesis .
  next
    case (waited s1 r2 s2)
    from wfmo_loop_frees [OF waited(3) register_loop_owned [OF waited(1) own0]]
    have 2: "frees_ok s1 s2" "owned t ?w s2" by simp_all
    have "frees_ok s ?s0" by (rule new_wfmo_frees)
    also have "frees_ok ?s0 s1" using waited(1) by (rule register_loop_frees)
    also note 2(1)
    also have "frees_ok s2 s'"
      using waited(4) 2(2) by (rule finalize_frees)
    finally show ?thesis .
  qed
qed

text \<open>
  C10. On every path that frees a wait record (the final decrement of the waiter at the
  end of \<open>WaitForMultipleEvents\<close>, and the cleanup of a departed waiter's registration
  by a signaler inside \<open>SetEvent\<close>), the mutex of the record is still locked by the
  freeing thread when \<open>Destroy\<close> and \<open>delete\<close> run.

  For every \<open>SetEvent\<close> and every \<open>WaitForMultipleEvents\<close> that returns, the calls of
  other threads during its waits included: each \<open>pthread_mutex_destroy\<close> that the call
  adds to the trace is on a mutex held by the thread that destroys it, and each record
  that the call frees has such a destruction in the trace.
\<close>

theorem record_freed_with_mutex_held:
  "(SetEvent t e s = Inr (result, s1) \<longrightarrow> (\<exists>d. frees_locked s s1 d))
   \<and> (WaitForMultipleEvents t evs count waitAll ms tv wakeups s = Inr (result, idx, s2)
        \<longrightarrow> (\<exists>d. frees_locked s s2 d))"
  using SetEvent_frees WaitForMultipleEvents_frees by (auto simp: frees_ok_def)

theorem record_freed_with_mutex_held_witness:
  "(\<exists>s1. SetEvent 2 0 world_stale = Inr (0, s1)
         \<and> frees_locked world_stale s1
               [MutexDestroy 2 0 (Some 2), CondDestroy 2 0, CondSignal 2 (EventCV 0)]
         \<and> waiters s1 = [None])
   \<and> (\<exists>s2. WaitForMultipleEvents 3 [0] 1 False 5 clock0 [(0, [DoSetEvent 2 0])] world_stale
               = Inr (0, 0, s2)
         \<and> frees_locked world_stale s2
               [CondTimedWait 3 (WfmoCV 1) \<lparr>ts_sec = 1700000000, ts_nsec = 255000000\<rparr>,
                MutexDestroy 2 0 (Some 2), CondDestroy 2 0, CondSignal 2 (WfmoCV 1),
                MutexDestroy 3 1 (Some 3), CondDestroy 3 1]
         \<and> waiters s2 = [None, None])"
proof -
  let ?wk = "[(0 :: int, [DoSetEvent 2 0])]"
  let ?d1 = "[MutexDestroy 2 0 (Some 2), CondDestroy 2 0, CondSignal 2 (EventCV 0)]"
  let ?d2 = "[CondTimedWait 3 (WfmoCV 1) \<lparr>ts_sec = 1700000000, ts_nsec = 255000000\<rparr>,
                MutexDestroy 2 0 (Some 2), CondDestroy 2 0, CondSignal 2 (WfmoCV 1),
                MutexDestroy 3 1 (Some 3), CondDestroy 3 1]"
  let ?s1 = "\<lparr>events = [ev_auto_clear\<lparr>State := True\<rparr>], waiters = [None], trace = ?d1\<rparr>"
  let ?s2 = "\<lparr>events = [ev_auto_clear], waiters = [None, None], trace = ?d2\<rparr>"
  have a: "SetEvent 2 0 world_stale = Inr (0, ?s1)" by code_simp
  have b: "WaitForMultipleEvents 3 [0] 1 False 5 clock0 ?wk world_stale = Inr (0, 0, ?s2)"
    by code_simp
  have t: "trace world_stale = []" by (simp add: world_stale_def)
  from record_freed_with_mutex_held [where t = 2 and e = 0 and s = world_stale and result = 0
      and ?s1.0 = ?s1] a
  obtain d1 where d1: "frees_locked world_stale ?s1 d1"
    by blast
  from record_freed_with_mutex_held [where t = 3 and s = world_stale and result = 0
      and evs = "[0]" and count = 1 and waitAll = False and ms = 5 and tv = clock0
      and wakeups = ?wk and idx = 0 and ?s2.0 = ?s2] b
  obtain d2 where d2: "frees_locked world_stale ?s2 d2"
    by blast
  from d1 t have "d1 = ?d1"
    by (simp add: frees_locked_def)
  moreover from d2 t have "d2 = ?d2"
    by (simp add: frees_locked_def)
  ultimately show ?thesis
    using a b d1 d2 by auto
qed

section \<open>SetEvent on an auto-reset event\<close>

lemma gone_iff:
  "gone s j \<longleftrightarrow> (\<exists>r. Waiter j < length (waiters s) \<and> waiters s ! Waiter j = Some r \<and> \<not> StillWaiting r)"
  by (auto simp: gone_def get_wfmo_def split: option.splits)

lemma obs_kept_refl [simp]: "obs_kept X s s"
  by (simp add: obs_kept_def)

lemma obs_kept_trans:
  "obs_kept X s s1 \<Longrightarrow> obs_kept Y s1 s2 \<Longrightarrow> obs_kept (X \<union> Y) s s2"
  unfolding obs_kept_def by (auto; metis)

lemma obs_kept_mono: "obs_kept X s s' \<Longrightarrow> X \<subseteq> Y \<Longrightarrow> obs_kept Y s s'"
  unfolding obs_kept_def by auto

lemma obs_kept_same: "waiters s' = waiters s \<Longrightarrow> obs_kept X s s'"
  by (simp add: obs_kept_def)

lemma nth_update_lt: "k < length xs \<Longrightarrow> xs[w := v] ! k = (if k = w then v else xs ! k)"
  by (cases "k = w") auto

lemma obs_kept_put_same:
  "waiters s ! w = Some r \<Longrightarrow> Status r' = Status r \<Longrightarrow> StillWaiting r' = StillWaiting r
   \<Longrightarrow> WaitAll r' = WaitAll r \<Longrightarrow> obs_kept X s (put_wfmo w r' s)"
  unfolding obs_kept_def by (auto simp: nth_update_lt split: if_splits)

lemma obs_kept_put_except: "obs_kept {w} s (put_wfmo w r' s)"
  unfolding obs_kept_def by (auto simp: nth_update_lt split: if_splits)

lemma obs_kept_delete: "obs_kept X s (delete_wfmo w s)"
  unfolding obs_kept_def by (auto simp: nth_update_lt split: if_splits)

lemma obs_kept_frame [simp]:
  "obs_kept X s (log_call c s') = obs_kept X s s'"
  "obs_kept X s (put_event k ev s') = obs_kept X s s'"
  "obs_kept X (log_call c s) s' = obs_kept X s s'"
  "obs_kept X (put_event k ev s) s' = obs_kept X s s'"
  by (simp_all add: obs_kept_def)

lemma quiet_trace_simps [simp]:
  "quiet_trace []"
  "quiet_trace (c # d) \<longleftrightarrow> \<not> is_signal c \<and> quiet_trace d"
  "quiet_trace (d @ d') \<longleftrightarrow> quiet_trace d \<and> quiet_trace d'"
  by (auto simp: quiet_trace_def)

lemma wfmo_upd_order:
  "r\<lparr>Status := x, Mutex := m\<rparr> = r\<lparr>Mutex := m, Status := x\<rparr>"
  "r\<lparr>StillWaiting := b, Mutex := m\<rparr> = r\<lparr>Mutex := m, StillWaiting := b\<rparr>"
  "r\<lparr>RefCount := c, Mutex := m\<rparr> = r\<lparr>Mutex := m, RefCount := c\<rparr>"
  "r\<lparr>StillWaiting := b, Status := x\<rparr> = r\<lparr>Status := x, StillWaiting := b\<rparr>"
  "r\<lparr>RefCount := c, Status := x\<rparr> = r\<lparr>Status := x, RefCount := c\<rparr>"
  "r\<lparr>RefCount := c, StillWaiting := b\<rparr> = r\<lparr>StillWaiting := b, RefCount := c\<rparr>"
  for r :: neosmart_wfmo_t
  by (cases r; simp)+

text \<open>A signaler meets the registration of a departed waiter: the record loses one
  reference, and is destroyed and freed if that was the last one.\<close>

lemma departed_step:
  assumes "take_reference t w s = Inr s1" and "get_wfmo w s1 = Inr r1" and "\<not> StillWaiting r1"
    and "drop_departed t w s1 = Inr s2"
  shows "\<exists>r. w < length (waiters s) \<and> waiters s ! w = Some r \<and> \<not> StillWaiting r
     \<and> Mutex r = None \<and> events s2 = events s
     \<and> trace s2 = trace s @ (if RefCount r = 1 then [MutexDestroy t w (Some t), CondDestroy t w] else [])
     \<and> waiters s2 = (waiters s)[w := (if RefCount r = 1 then None
                                        else Some (r\<lparr>Mutex := None, RefCount := RefCount r - 1\<rparr>))]"
proof -
  from assms(1) obtain r where r: "w < length (waiters s)" "waiters s ! w = Some r" "Mutex r = None"
    and s1: "s1 = put_wfmo w (r\<lparr>Mutex := Some t, RefCount := RefCount r - 1\<rparr>) s"
    by (auto simp: prim_Inr)
  from assms(2) r(1) have r1: "r1 = r\<lparr>Mutex := Some t, RefCount := RefCount r - 1\<rparr>"
    by (simp add: s1)
  with assms(3) have "\<not> StillWaiting r" by simp
  moreover from assms(4) r(1) have
    "s2 = (if RefCount r = 1
           then delete_wfmo w (log_call (CondDestroy t w) (log_call (MutexDestroy t w (Some t)) s1))
           else put_wfmo w (r\<lparr>Mutex := None, RefCount := RefCount r - 1\<rparr>) s1)"
    by (auto simp: prim_Inr s1 wfmo_upd_order)
  ultimately show ?thesis
    using r by (auto simp: s1 wfmo_upd_order)
qed

text \<open>A signaler meets the registration of a waiter that is still waiting.\<close>

lemma live_step:
  assumes "take_reference t (Waiter i) s = Inr s1" and "get_wfmo (Waiter i) s1 = Inr r1"
    and "StillWaiting r1" and "waiters s1' = waiters s1"
    and "notify_waiter i s1' = Inr s2" and "unlock_wfmo (Waiter i) s2 = Inr s3"
  shows "\<exists>r. Waiter i < length (waiters s) \<and> waiters s ! Waiter i = Some r \<and> StillWaiting r
     \<and> Mutex r = None \<and> (WaitAll r \<longrightarrow> 1 \<le> Status r)
     \<and> events s3 = events s1' \<and> trace s3 = trace s1'
     \<and> waiters s3 = (waiters s)[Waiter i := Some (notified i r)]"
proof -
  let ?w = "Waiter i"
  from assms(1) obtain r where r: "?w < length (waiters s)" "waiters s ! ?w = Some r" "Mutex r = None"
    and s1: "s1 = put_wfmo ?w (r\<lparr>Mutex := Some t, RefCount := RefCount r - 1\<rparr>) s"
    by (auto simp: prim_Inr)
  from assms(2) r(1) have r1: "r1 = r\<lparr>Mutex := Some t, RefCount := RefCount r - 1\<rparr>"
    by (simp add: s1)
  with assms(3) have sw: "StillWaiting r" by simp
  have w1: "waiters s1' ! ?w = Some r1" "?w < length (waiters s1')"
    using assms(4) r(1) by (simp_all add: s1 r1)
  from assms(5) w1 have st: "WaitAll r \<longrightarrow> 1 \<le> Status r"
    and s2: "s2 = put_wfmo ?w (if WaitAll r1 then r1\<lparr>Status := Status r1 - 1\<rparr>
                    else r1\<lparr>Status := WaitIndex i, StillWaiting := False\<rparr>) s1'"
    by (auto simp: prim_Inr r1)
  from assms(6) w1 have s3: "s3 = put_wfmo ?w ((if WaitAll r1 then r1\<lparr>Status := Status r1 - 1\<rparr>
                    else r1\<lparr>Status := WaitIndex i, StillWaiting := False\<rparr>)\<lparr>Mutex := None\<rparr>) s2"
    by (auto simp: prim_Inr s2)
  have "waiters s3 = (waiters s)[?w := Some (notified i r)]"
    by (simp add: s3 s2 assms(4) s1 r1 notified_def wfmo_upd_order)
  with r sw st show ?thesis
    by (simp add: s3 s2)
qed

lemma others_same_refl [simp]: "others_same e s s"
  by (simp add: others_same_def)

lemma others_same_trans: "others_same e s s1 \<Longrightarrow> others_same e s1 s2 \<Longrightarrow> others_same e s s2"
  by (auto simp: others_same_def)

lemma others_same_put_event: "others_same e s (put_event e ev s)"
  by (auto simp: others_same_def)

lemma others_same_events: "events s' = events s \<Longrightarrow> others_same e s s'"
  by (simp add: others_same_def)

lemma gone_back:
  assumes "gone s' j" and "obs_kept {} s s'"
  shows "gone s j"
  using assms unfolding gone_iff obs_kept_def by fastforce

lemma walk_auto_spec:
  assumes "walk_auto t e q s = Inr (ret, s')" and "e < length (events s)"
    and "RegisteredWaits (events s ! e) = q"
  shows "others_same e s s' \<and> AutoReset (events s' ! e) = AutoReset (events s ! e)
     \<and> ((\<exists>stale i rest r d. q = stale @ i # rest \<and> list_all (gone s) stale
            \<and> Waiter i < length (waiters s) \<and> waiters s ! Waiter i = Some r \<and> StillWaiting r
            \<and> ret = Some 0
            \<and> \<not> State (events s' ! e) \<and> RegisteredWaits (events s' ! e) = rest
            \<and> EvMutex (events s' ! e) = None
            \<and> waiters s' ! Waiter i = Some (notified i r) \<and> obs_kept {Waiter i} s s'
            \<and> trace s' = trace s @ d @ [CondSignal t (WfmoCV (Waiter i))] \<and> quiet_trace d)
        \<or> (\<exists>d. list_all (gone s) q \<and> ret = None
            \<and> State (events s' ! e) = State (events s ! e) \<and> RegisteredWaits (events s' ! e) = []
            \<and> EvMutex (events s' ! e) = EvMutex (events s ! e)
            \<and> obs_kept {} s s' \<and> trace s' = trace s @ d \<and> quiet_trace d))"
  using assms
proof (induction q arbitrary: s)
  case Nil
  then show ?case by simp
next
  case (Cons i q)
  from Cons.prems(1) show ?case
  proof (cases rule: walk_auto_ConsE)
    case (departed s1 r1 s2 s3)
    from departed_step [OF departed(1,2,3,4)] obtain r where
      r: "Waiter i < length (waiters s)" "waiters s ! Waiter i = Some r" "\<not> StillWaiting r"
      and ev2: "events s2 = events s"
      and tr2: "trace s2 = trace s @ (if RefCount r = 1
                  then [MutexDestroy t (Waiter i) (Some t), CondDestroy t (Waiter i)] else [])"
      and w2: "waiters s2 = (waiters s)[Waiter i := (if RefCount r = 1 then None
                    else Some (r\<lparr>Mutex := None, RefCount := RefCount r - 1\<rparr>))]"
      by blast
    let ?d0 = "if RefCount r = 1
                  then [MutexDestroy t (Waiter i) (Some t), CondDestroy t (Waiter i)] else []"
    from departed(5) ev2 Cons.prems(2,3) have
      s3: "s3 = put_event e ((events s ! e)\<lparr>RegisteredWaits := q\<rparr>) s2"
      by (simp add: prim_Inr)
    have g: "gone s i"
      using r by (auto simp: gone_iff)
    have k3: "obs_kept {} s s3"
      using r w2 unfolding obs_kept_def s3 by (auto simp: nth_update_lt split: if_splits)
    have q0: "quiet_trace ?d0" by simp
    have pre: "e < length (events s3)" "RegisteredWaits (events s3 ! e) = q"
      using Cons.prems(2) ev2 by (simp_all add: s3)
    have ev3: "others_same e s s3" "AutoReset (events s3 ! e) = AutoReset (events s ! e)"
      "State (events s3 ! e) = State (events s ! e)" "EvMutex (events s3 ! e) = EvMutex (events s ! e)"
      using Cons.prems(2) ev2 by (auto simp: s3 others_same_def)
    have tr3: "trace s3 = trace s @ ?d0" "length (waiters s3) = length (waiters s)"
      using tr2 w2 by (simp_all add: s3)
    from Cons.IH [OF departed(6) pre] have
      fr: "others_same e s3 s'" "AutoReset (events s' ! e) = AutoReset (events s3 ! e)"
      and alt: "(\<exists>stale i' rest r' d. q = stale @ i' # rest \<and> list_all (gone s3) stale
            \<and> Waiter i' < length (waiters s3) \<and> waiters s3 ! Waiter i' = Some r' \<and> StillWaiting r'
            \<and> ret = Some 0
            \<and> \<not> State (events s' ! e) \<and> RegisteredWaits (events s' ! e) = rest
            \<and> EvMutex (events s' ! e) = None
            \<and> waiters s' ! Waiter i' = Some (notified i' r') \<and> obs_kept {Waiter i'} s3 s'
            \<and> trace s' = trace s3 @ d @ [CondSignal t (WfmoCV (Waiter i'))] \<and> quiet_trace d)
        \<or> (\<exists>d. list_all (gone s3) q \<and> ret = None
            \<and> State (events s' ! e) = State (events s3 ! e) \<and> RegisteredWaits (events s' ! e) = []
            \<and> EvMutex (events s' ! e) = EvMutex (events s3 ! e)
            \<and> obs_kept {} s3 s' \<and> trace s' = trace s3 @ d \<and> quiet_trace d)"
      by blast+
    have frame: "others_same e s s' \<and> AutoReset (events s' ! e) = AutoReset (events s ! e)"
      using fr ev3 by (auto intro: others_same_trans)
    from alt show ?thesis
    proof (elim disjE exE conjE)
      fix stale i' rest r' d
      assume a: "q = stale @ i' # rest" "list_all (gone s3) stale"
        "Waiter i' < length (waiters s3)" "waiters s3 ! Waiter i' = Some r'" "StillWaiting r'"
        "ret = Some 0" "\<not> State (events s' ! e)" "RegisteredWaits (events s' ! e) = rest"
        "EvMutex (events s' ! e) = None" "waiters s' ! Waiter i' = Some (notified i' r')"
        "obs_kept {Waiter i'} s3 s'" "trace s' = trace s3 @ d @ [CondSignal t (WfmoCV (Waiter i'))]"
        "quiet_trace d"
      have ne: "Waiter i' \<noteq> Waiter i"
        using a(3,4,5) r w2 tr3(2) by (auto simp: s3 nth_update_lt split: if_splits)
      then have same: "waiters s ! Waiter i' = Some r'"
        using a(4) w2 by (simp add: s3)
      have st: "list_all (gone s) (i # stale)"
        using g a(2) k3 by (auto simp: list_all_iff intro: gone_back)
      have ok: "obs_kept {Waiter i'} s s'"
        using obs_kept_trans [OF k3 a(11)] by simp
      have "i # q = (i # stale) @ i' # rest \<and> list_all (gone s) (i # stale)
            \<and> Waiter i' < length (waiters s) \<and> waiters s ! Waiter i' = Some r' \<and> StillWaiting r'
            \<and> ret = Some 0
            \<and> \<not> State (events s' ! e) \<and> RegisteredWaits (events s' ! e) = rest
            \<and> EvMutex (events s' ! e) = None
            \<and> waiters s' ! Waiter i' = Some (notified i' r') \<and> obs_kept {Waiter i'} s s'
            \<and> trace s' = trace s @ (?d0 @ d) @ [CondSignal t (WfmoCV (Waiter i'))]
            \<and> quiet_trace (?d0 @ d)"
        using a st same ok tr3 q0 by simp
      with frame show ?thesis by blast
    next
      fix d
      assume a: "list_all (gone s3) q" "ret = None" "State (events s' ! e) = State (events s3 ! e)"
        "RegisteredWaits (events s' ! e) = []" "EvMutex (events s' ! e) = EvMutex (events s3 ! e)"
        "obs_kept {} s3 s'" "trace s' = trace s3 @ d" "quiet_trace d"
      have st: "list_all (gone s) (i # q)"
        using g a(1) k3 by (auto simp: list_all_iff intro: gone_back)
      have ok: "obs_kept {} s s'"
        using obs_kept_trans [OF k3 a(6)] by simp
      have "list_all (gone s) (i # q) \<and> ret = None
            \<and> State (events s' ! e) = State (events s ! e) \<and> RegisteredWaits (events s' ! e) = []
            \<and> EvMutex (events s' ! e) = EvMutex (events s ! e)
            \<and> obs_kept {} s s' \<and> trace s' = trace s @ (?d0 @ d) \<and> quiet_trace (?d0 @ d)"
        using a st ok tr3 ev3 q0 by simp
      with frame show ?thesis by blast
    qed
  next
    case (live s1 r1 s2 s3 s4 s5)
    have w2: "waiters s2 = waiters s1"
      using live(4) by (auto dest: event_ops_frame)
    from live_step [OF live(1,2,3) w2 live(5,6)] obtain r where
      r: "Waiter i < length (waiters s)" "waiters s ! Waiter i = Some r" "StillWaiting r"
      and s4: "events s4 = events s2" "trace s4 = trace s2"
        "waiters s4 = (waiters s)[Waiter i := Some (notified i r)]"
      by blast
    have ev1: "events s1 = events s" "trace s1 = trace s"
      using live(1) by (auto simp: prim_Inr)
    from live(4) ev1 Cons.prems(2) have
      s2: "events s2 = (events s)[e := (events s ! e)\<lparr>State := False\<rparr>]" "trace s2 = trace s"
      by (auto simp: prim_Inr)
    from live(7,8) s4 s2 Cons.prems(2,3) have
      s': "events s' = (events s)[e := (events s ! e)\<lparr>State := False, RegisteredWaits := q,
                                                      EvMutex := None\<rparr>]"
        "trace s' = trace s @ [CondSignal t (WfmoCV (Waiter i))]"
        "waiters s' = (waiters s)[Waiter i := Some (notified i r)]"
      by (auto simp: prim_Inr)
    have "obs_kept {Waiter i} s s'"
      unfolding obs_kept_def using s'(3) by (auto simp: nth_update_lt)
    moreover have "others_same e s s'"
      using s'(1) by (auto simp: others_same_def)
    ultimately have "others_same e s s' \<and> AutoReset (events s' ! e) = AutoReset (events s ! e)
        \<and> i # q = [] @ i # q \<and> list_all (gone s) []
        \<and> Waiter i < length (waiters s) \<and> waiters s ! Waiter i = Some r \<and> StillWaiting r
        \<and> ret = Some 0
        \<and> \<not> State (events s' ! e) \<and> RegisteredWaits (events s' ! e) = q
        \<and> EvMutex (events s' ! e) = None
        \<and> waiters s' ! Waiter i = Some (notified i r) \<and> obs_kept {Waiter i} s s'
        \<and> trace s' = trace s @ [] @ [CondSignal t (WfmoCV (Waiter i))] \<and> quiet_trace []"
      using r s' live(9) Cons.prems(2) by simp
    then show ?thesis by blast
  qed
qed

lemma gone_cong: "waiters s' = waiters s \<Longrightarrow> gone s' = gone s"
  by (auto simp: gone_iff fun_eq_iff)

lemma obs_kept_cong: "waiters a' = waiters a \<Longrightarrow> obs_kept X a' s' = obs_kept X a s'"
  by (simp add: obs_kept_def)

text \<open>
  C4. A \<open>SetEvent\<close> on an auto-reset event lets at most one waiter observe the signal:
  the queue of registered waits is walked from the front, skipping departed waiters;
  at the first waiter still waiting the record is updated, the state goes back to
  false, that one entry is popped, the condition variable of the waiter is signaled
  and \<open>SetEvent\<close> returns; only if there is no such waiter does the state stay true
  and exactly one \<open>pthread_cond_signal\<close> on the event wake a single waiter.

  For every \<open>SetEvent\<close> that returns on an auto-reset event, one of two holds. Either
  the queue is a run of departed registrations, then a registration \<open>i\<close> of a waiter
  still waiting, then a rest: the event ends non-signaled with the rest as its queue,
  the record of that waiter is the notified one, no other record changes in what its
  waiter reads, and the trace gains exactly one signal, the last call, on the
  condition variable of that waiter. Or every registration is of a departed waiter:
  the event ends signaled with an empty queue, no record changes in what its waiter
  reads, and the trace gains exactly one signal, the last call, on the condition
  variable of the event. All other events are untouched and the mutex of the event is
  free again.
\<close>

theorem auto_reset_wakes_one:
  assumes "SetEvent t e s = Inr (result, s')" and "AutoReset (events s ! e)"
  shows "others_same e s s' \<and> AutoReset (events s' ! e) \<and> EvMutex (events s' ! e) = None
     \<and> result = 0
     \<and> ((\<exists>stale i rest r d. RegisteredWaits (events s ! e) = stale @ i # rest
            \<and> list_all (gone s) stale
            \<and> Waiter i < length (waiters s) \<and> waiters s ! Waiter i = Some r \<and> StillWaiting r
            \<and> \<not> State (events s' ! e) \<and> RegisteredWaits (events s' ! e) = rest
            \<and> waiters s' ! Waiter i = Some (notified i r) \<and> obs_kept {Waiter i} s s'
            \<and> trace s' = trace s @ d @ [CondSignal t (WfmoCV (Waiter i))] \<and> quiet_trace d)
        \<or> (\<exists>d. list_all (gone s) (RegisteredWaits (events s ! e))
            \<and> State (events s' ! e) \<and> RegisteredWaits (events s' ! e) = []
            \<and> obs_kept {} s s'
            \<and> trace s' = trace s @ d @ [CondSignal t (EventCV e)] \<and> quiet_trace d))"
proof -
  have start: "\<And>s1 s2. lock_event t e s = Inr s1 \<Longrightarrow> set_State e True s1 = Inr s2 \<Longrightarrow>
      e < length (events s) \<and> e < length (events s2) \<and> waiters s2 = waiters s \<and> trace s2 = trace s
      \<and> others_same e s s2 \<and> AutoReset (events s2 ! e) = AutoReset (events s ! e)
      \<and> State (events s2 ! e) \<and> RegisteredWaits (events s2 ! e) = RegisteredWaits (events s ! e)"
    by (auto simp: prim_Inr others_same_def)
  from assms(1) show ?thesis
  proof (cases rule: SetEventE)
    case (handed s1 s2)
    from start [OF handed(1,2)] have st: "e < length (events s)" "e < length (events s2)"
      "waiters s2 = waiters s" "trace s2 = trace s" "others_same e s s2"
      "AutoReset (events s2 ! e) = AutoReset (events s ! e)" "State (events s2 ! e)"
      "RegisteredWaits (events s2 ! e) = RegisteredWaits (events s ! e)"
      by simp_all
    from walk_auto_spec [OF handed(4) st(2) refl] st assms(2)
    show ?thesis
      by (simp add: gone_cong [OF st(3)] obs_kept_cong [OF st(3)])
         (blast intro: others_same_trans)
  next
    case (published s1 s2 s3 s4)
    from start [OF published(1,2)] have st: "e < length (events s)" "e < length (events s2)"
      "waiters s2 = waiters s" "trace s2 = trace s" "others_same e s s2"
      "AutoReset (events s2 ! e) = AutoReset (events s ! e)" "State (events s2 ! e)"
      "RegisteredWaits (events s2 ! e) = RegisteredWaits (events s ! e)"
      by simp_all
    from walk_auto_spec [OF published(4) st(2) refl] obtain d where
      w: "others_same e s2 s3" "AutoReset (events s3 ! e) = AutoReset (events s2 ! e)"
        "list_all (gone s2) (RegisteredWaits (events s2 ! e))"
        "RegisteredWaits (events s3 ! e) = []" "obs_kept {} s2 s3"
        "trace s3 = trace s2 @ d" "quiet_trace d"
      by auto
    from published(6,7) have s': "e < length (events s3)"
      "s' = log_call (CondSignal t (EventCV e)) (put_event e ((events s3 ! e)\<lparr>EvMutex := None\<rparr>) s3)"
      by (auto simp: prim_Inr)
    have "others_same e s3 s'"
      by (simp add: s' others_same_def)
    with w(1) st(5) have "others_same e s s'"
      by (blast intro: others_same_trans)
    moreover have "list_all (gone s) (RegisteredWaits (events s ! e))
            \<and> State (events s' ! e) \<and> RegisteredWaits (events s' ! e) = []
            \<and> obs_kept {} s s'
            \<and> trace s' = trace s @ d @ [CondSignal t (EventCV e)] \<and> quiet_trace d"
      using w st s'(1) published(5)
      by (simp add: s'(2) gone_cong [OF st(3)] obs_kept_cong [OF st(3)])
    moreover have "AutoReset (events s' ! e) \<and> EvMutex (events s' ! e) = None"
      using w(2) st(6) assms(2) s'(1) by (simp add: s'(2))
    ultimately show ?thesis
      using published(8) by blast
  next
    case (unreachable s1 s2)
    from start [OF unreachable(1,2)] have st: "e < length (events s2)" "State (events s2 ! e)"
      by simp_all
    from walk_auto_spec [OF unreachable(4) st(1) refl] unreachable(5) st(2)
    show ?thesis by auto
  next
    case (manual s1 s2 s3 s4)
    from start [OF manual(1,2)] manual(3) assms(2) show ?thesis by simp
  qed
qed

theorem auto_reset_wakes_one_witness:
  "AutoReset (events world_queue ! 0)
   \<and> (\<exists>s'. SetEvent 5 0 world_queue = Inr (0, s')
          \<and> others_same 0 world_queue s' \<and> EvMutex (events s' ! 0) = None
          \<and> \<not> State (events s' ! 0)
          \<and> RegisteredWaits (events s' ! 0) = [\<lparr>Waiter = 2, WaitIndex = 0\<rparr>]
          \<and> trace s' = [MutexDestroy 5 0 (Some 5), CondDestroy 5 0, CondSignal 5 (WfmoCV 1)])
   \<and> AutoReset (events world_stale ! 0)
   \<and> (\<exists>s'. SetEvent 2 0 world_stale = Inr (0, s')
          \<and> others_same 0 world_stale s' \<and> EvMutex (events s' ! 0) = None
          \<and> State (events s' ! 0) \<and> RegisteredWaits (events s' ! 0) = []
          \<and> trace s' = [MutexDestroy 2 0 (Some 2), CondDestroy 2 0, CondSignal 2 (EventCV 0)])"
proof -
  let ?s1 = "\<lparr>events = [ev_auto_clear\<lparr>RegisteredWaits := [\<lparr>Waiter = 2, WaitIndex = 0\<rparr>]\<rparr>],
      waiters = [None,
                 Some \<lparr>Mutex = None, Status = 3, StillWaiting = False, RefCount = 1,
                       WaitAll = False\<rparr>,
                 Some \<lparr>Mutex = None, Status = 1, StillWaiting = True, RefCount = 2,
                       WaitAll = True\<rparr>],
      trace = [MutexDestroy 5 0 (Some 5), CondDestroy 5 0, CondSignal 5 (WfmoCV 1)]\<rparr>"
  let ?s2 = "\<lparr>events = [ev_auto_clear\<lparr>State := True\<rparr>], waiters = [None],
      trace = [MutexDestroy 2 0 (Some 2), CondDestroy 2 0, CondSignal 2 (EventCV 0)]\<rparr>"
  have a1: "SetEvent 5 0 world_queue = Inr (0, ?s1)" by code_simp
  have b1: "AutoReset (events world_queue ! 0)" by code_simp
  have c1: "\<not> State (events ?s1 ! 0) \<and> RegisteredWaits (events ?s1 ! 0) = [\<lparr>Waiter = 2, WaitIndex = 0\<rparr>]"
    by code_simp
  have a2: "SetEvent 2 0 world_stale = Inr (0, ?s2)" by code_simp
  have b2: "AutoReset (events world_stale ! 0)" by code_simp
  have c2: "State (events ?s2 ! 0) \<and> RegisteredWaits (events ?s2 ! 0) = []"
    by code_simp
  from auto_reset_wakes_one [OF a1 b1]
  have d1: "others_same 0 world_queue ?s1 \<and> EvMutex (events ?s1 ! 0) = None"
    by blast
  from auto_reset_wakes_one [OF a2 b2]
  have d2: "others_same 0 world_stale ?s2 \<and> EvMutex (events ?s2 ! 0) = None"
    by blast
  from a1 b1 c1 d1 a2 b2 c2 d2 show ?thesis
    by simp
qed

section \<open>A wait for all on a signaled manual-reset event\<close>

text \<open>
  C7. The claim: for every manual-reset event whose state is true, every wait, with
  any timeout value, returns success immediately and leaves the state of the event
  unchanged, until a \<open>ResetEvent\<close> intervenes.

  A wait for all on the event alone with \<open>milliseconds = 0\<close> does not return
  success. Its registration loop finds the event signaled and brings \<open>EventsLeft\<close>
  to 0, but \<open>done\<close> is still false, and the test of line 291 sets \<open>ETIMEDOUT\<close>
  before the loop of line 308 can see \<open>EventsLeft = 0\<close>. For every signaled
  manual-reset event with a free mutex, every thread and every list of wake-ups, the
  call returns \<open>ETIMEDOUT\<close>; the event is left as it was.
\<close>

theorem wait_all_on_signaled_manual_times_out:
  assumes "signaled_manual e s" and "EvMutex (events s ! e) = None"
  shows "WaitForMultipleEvents t [e] 1 True 0 tv wakeups s =
     Inr (ETIMEDOUT, 0,
          s\<lparr>waiters := waiters s @ [None],
            trace := trace s @ [MutexDestroy t (length (waiters s)) (Some t),
                                CondDestroy t (length (waiters s))]\<rparr>)"
proof -
  let ?w = "length (waiters s)"
  let ?s0 = "new_wfmo t True 1 s"
  from assms have e: "e < length (events s)" "\<not> AutoReset (events s ! e)" "State (events s ! e)"
    by (simp_all add: signaled_manual_def)
  have lock: "lock_event t e ?s0 = Inr (put_event e ((events s ! e)\<lparr>EvMutex := Some t\<rparr>) ?s0)"
    using e assms(2) by (simp add: lock_event_def get_event_def)
  have wait: "UnlockedWaitForEvent t e 0 tv [] (put_event e ((events s ! e)\<lparr>EvMutex := Some t\<rparr>) ?s0)
                = Inr (0, put_event e ((events s ! e)\<lparr>EvMutex := Some t\<rparr>) ?s0)"
    using e by (simp add: UnlockedWaitForEvent_def get_event_def)
  have unlock: "unlock_event e (put_event e ((events s ! e)\<lparr>EvMutex := Some t\<rparr>) ?s0) = Inr ?s0"
    using e assms(2)
    by (simp add: unlock_event_def get_event_def put_event_def new_wfmo_def EvMutex_update_same)
  have reg: "register_loop t [e] ?w True tv 0 (nat 1) ?s0
               = Inr (False, put_wfmo ?w \<lparr>Mutex = Some t, Status = 0, StillWaiting = True,
                                          RefCount = 1, WaitAll = True\<rparr> ?s0)"
    by (simp add: lock wait unlock get_wfmo_def)
  show ?thesis
    unfolding WaitForMultipleEvents_def Let_def reg
    by (simp add: finalize_def Destroy_def get_wfmo_def Let_def new_wfmo_def put_wfmo_def
          delete_wfmo_def log_call_def)
qed

theorem wait_all_on_signaled_manual_times_out_witness:
  "signaled_manual 0 world_two \<and> EvMutex (events world_two ! 0) = None
   \<and> WaitForMultipleEvents 3 [0] 1 True 0 clock0 [] world_two =
       Inr (ETIMEDOUT, 0,
            world_two\<lparr>waiters := [None],
                        trace := [MutexDestroy 3 0 (Some 3), CondDestroy 3 0]\<rparr>)"
proof -
  have a: "signaled_manual 0 world_two" by code_simp
  have b: "EvMutex (events world_two ! 0) = None" by code_simp
  from wait_all_on_signaled_manual_times_out [OF a b, of 3 clock0 "[]"] a b
  show ?thesis by (simp add: world_two_def)
qed

section \<open>What a timed-out wait leaves behind\<close>


lemma same_core_frame [simp]:
  "same_core (log_call c x) a = same_core x a"
  "same_core x (log_call c a) = same_core x a"
  by (simp_all add: same_core_def)

























section \<open>The reference count of a wait record\<close>

text \<open>Counting registrations.\<close>

lemma cnt_simps [simp]:
  "cnt [] w = 0"
  "cnt (i # q) w = (if Waiter i = w then Suc (cnt q w) else cnt q w)"
  "cnt (q @ q') w = cnt q w + cnt q' w"
  by (simp_all add: cnt_def)

lemma regs_frame [simp]:
  "regs (put_wfmo w r s) = regs s"
  "regs (delete_wfmo w s) = regs s"
  "regs (log_call c s) = regs s"
  "regs (new_wfmo t waitAll count s) = regs s"
  by (simp_all add: regs_def fun_eq_iff)

lemma sum_list_update_nat:
  "k < length xs \<Longrightarrow> sum_list (xs[k := (y::nat)]) + xs ! k = sum_list xs + y"
  by (induction xs arbitrary: k) (auto split: nat.splits)

lemma regs_put_event:
  assumes "e < length (events s)"
  shows "regs (put_event e ev s) w + cnt (RegisteredWaits (events s ! e)) w
           = regs s w + cnt (RegisteredWaits ev) w"
proof -
  let ?f = "\<lambda>ev. cnt (RegisteredWaits ev) w"
  have "sum_list ((map ?f (events s))[e := ?f ev]) + map ?f (events s) ! e
          = sum_list (map ?f (events s)) + ?f ev"
    using assms by (intro sum_list_update_nat) simp
  with assms show ?thesis
    by (simp add: regs_def map_update)
qed

lemma regs_put_event_same:
  "e < length (events s) \<Longrightarrow> RegisteredWaits ev = RegisteredWaits (events s ! e)
   \<Longrightarrow> regs (put_event e ev s) = regs s"
  using regs_put_event [of e s ev] by (auto simp: fun_eq_iff)

lemma cnt_le_regs: "e < length (events s) \<Longrightarrow> cnt (RegisteredWaits (events s ! e)) w \<le> regs s w"
proof -
  assume e: "e < length (events s)"
  let ?xs = "map (\<lambda>ev. cnt (RegisteredWaits ev) w) (events s)"
  have "?xs ! e \<in> set ?xs"
    using e by (intro nth_mem) simp
  then have "?xs ! e \<le> sum_list ?xs"
    by (rule member_le_sum_list) simp
  with e show ?thesis by (simp add: regs_def)
qed

lemma rec_at_simps [simp]:
  "rec_at (put_wfmo w r s) w' = (if w' = w \<and> w < length (waiters s) then Some r else rec_at s w')"
  "rec_at (delete_wfmo w s) w' = (if w' = w then None else rec_at s w')"
  "rec_at (log_call c s) = rec_at s"
  "rec_at (put_event e ev s) = rec_at s"
  by (auto simp: rec_at_def fun_eq_iff)

lemma rec_at_Some: "rec_at s w = Some r \<longleftrightarrow> w < length (waiters s) \<and> waiters s ! w = Some r"
  by (simp add: rec_at_def)

lemma refs_inv_cong:
  "rec_at s' = rec_at s \<Longrightarrow> regs s' = regs s \<Longrightarrow> refs_inv A p s' = refs_inv A p s"
  by (simp add: refs_inv_def)

lemma event_ops_regs:
  "lock_event t e s = Inr s' \<Longrightarrow> regs s' = regs s"
  "unlock_event e s = Inr s' \<Longrightarrow> regs s' = regs s"
  "set_State e b s = Inr s' \<Longrightarrow> regs s' = regs s"
  by (auto simp: prim_Inr regs_put_event_same)

lemma event_ops_rec_at:
  "lock_event t e s = Inr s' \<Longrightarrow> rec_at s' = rec_at s"
  "unlock_event e s = Inr s' \<Longrightarrow> rec_at s' = rec_at s"
  "set_State e b s = Inr s' \<Longrightarrow> rec_at s' = rec_at s"
  "pop_front e s = Inr s' \<Longrightarrow> rec_at s' = rec_at s"
  by (auto simp: prim_Inr)

lemma event_ops_refs:
  "lock_event t e s = Inr s' \<Longrightarrow> refs_inv A p s' = refs_inv A p s"
  "unlock_event e s = Inr s' \<Longrightarrow> refs_inv A p s' = refs_inv A p s"
  "set_State e b s = Inr s' \<Longrightarrow> refs_inv A p s' = refs_inv A p s"
  by (rule refs_inv_cong, erule event_ops_rec_at, erule event_ops_regs)+

lemma rec_at_update:
  "waiters s' = (waiters s)[w := x] \<Longrightarrow> w < length (waiters s)
   \<Longrightarrow> rec_at s' w' = (if w' = w then x else rec_at s w')"
  by (auto simp: rec_at_def)

text \<open>A signaler has visited one registration of \<open>w\<close>: one more of the registrations of
  \<open>w\<close> is counted as visited.\<close>

lemma visit_departed:
  assumes inv: "refs_inv A p s" and pend: "p w < regs s w"
    and "take_reference t w s = Inr s1" and "get_wfmo w s1 = Inr r1" and "\<not> StillWaiting r1"
    and "drop_departed t w s1 = Inr s2"
  shows "refs_inv A (p(w := Suc (p w))) s2 \<and> events s2 = events s"
proof -
  from departed_step [OF assms(3-6)] obtain r where
    r: "w < length (waiters s)" "waiters s ! w = Some r" "\<not> StillWaiting r"
    and ev: "events s2 = events s"
    and w2: "waiters s2 = (waiters s)[w := (if RefCount r = 1 then None
                    else Some (r\<lparr>Mutex := None, RefCount := RefCount r - 1\<rparr>))]"
    by blast
  have regs2: "regs s2 = regs s"
    using ev by (simp add: regs_def fun_eq_iff)
  have rw: "rec_at s w = Some r"
    using r by (simp add: rec_at_Some)
  from inv rw have old: "RefCount r + int (p w) = (if w \<in> A then 1 else 0) + int (regs s w)"
    "0 < RefCount r"
    by (auto simp: refs_inv_def)
  have "refs_inv A (p(w := Suc (p w))) s2"
    unfolding refs_inv_def
  proof (intro allI)
    fix w'
    show "(p(w := Suc (p w))) w' \<le> regs s2 w'
        \<and> (rec_at s2 w' = None \<longrightarrow> w' \<notin> A \<and> regs s2 w' = (p(w := Suc (p w))) w')
        \<and> (\<forall>r. rec_at s2 w' = Some r \<longrightarrow>
              RefCount r + int ((p(w := Suc (p w))) w') = (if w' \<in> A then 1 else 0) + int (regs s2 w')
              \<and> 0 < RefCount r \<and> (w' \<notin> A \<longrightarrow> \<not> StillWaiting r))"
    proof (cases "w' = w")
      case True
      with old pend r(3) show ?thesis
        by (auto simp: regs2 rec_at_update [OF w2 r(1)] split: if_splits)
    next
      case False
      with inv show ?thesis
        by (simp add: regs2 rec_at_update [OF w2 r(1)] refs_inv_def)
    qed
  qed
  with ev show ?thesis by simp
qed

lemma visit_live:
  assumes inv: "refs_inv A p s" and pend: "p (Waiter i) < regs s (Waiter i)"
    and "take_reference t (Waiter i) s = Inr s1" and "get_wfmo (Waiter i) s1 = Inr r1"
    and "StillWaiting r1" and "waiters s1' = waiters s1"
    and "notify_waiter i s1' = Inr s2" and "unlock_wfmo (Waiter i) s2 = Inr s3"
    and regs3: "regs s1' = regs s"
  shows "refs_inv A (p(Waiter i := Suc (p (Waiter i)))) s3 \<and> events s3 = events s1'"
proof -
  let ?w = "Waiter i"
  from live_step [OF assms(3-8)] obtain r where
    r: "?w < length (waiters s)" "waiters s ! ?w = Some r" "StillWaiting r"
    and ev: "events s3 = events s1'"
    and w3: "waiters s3 = (waiters s)[?w := Some (notified i r)]"
    by blast
  have regs3': "regs s3 = regs s"
    using ev regs3 by (simp add: regs_def fun_eq_iff)
  have rw: "rec_at s ?w = Some r"
    using r by (simp add: rec_at_Some)
  from inv rw r(3) have old: "?w \<in> A" "RefCount r + int (p ?w) = 1 + int (regs s ?w)"
    by (auto simp: refs_inv_def split: if_splits)
  have rc: "RefCount (notified i r) = RefCount r - 1"
    by (simp add: notified_def)
  have "refs_inv A (p(?w := Suc (p ?w))) s3"
    unfolding refs_inv_def
  proof (intro allI)
    fix w'
    show "(p(?w := Suc (p ?w))) w' \<le> regs s3 w'
        \<and> (rec_at s3 w' = None \<longrightarrow> w' \<notin> A \<and> regs s3 w' = (p(?w := Suc (p ?w))) w')
        \<and> (\<forall>r. rec_at s3 w' = Some r \<longrightarrow>
              RefCount r + int ((p(?w := Suc (p ?w))) w') = (if w' \<in> A then 1 else 0) + int (regs s3 w')
              \<and> 0 < RefCount r \<and> (w' \<notin> A \<longrightarrow> \<not> StillWaiting r))"
    proof (cases "w' = ?w")
      case True
      with old pend rc show ?thesis
        by (auto simp: regs3' rec_at_update [OF w3 r(1)])
    next
      case False
      with inv show ?thesis
        by (simp add: regs3' rec_at_update [OF w3 r(1)] refs_inv_def)
    qed
  qed
  with ev show ?thesis by simp
qed

lemma refs_inv_dequeue:
  assumes "refs_inv A (p(w := Suc (p w))) s" and "rec_at s' = rec_at s"
    and "\<And>w'. regs s' w' + (if w' = w then 1 else 0) = regs s w'"
  shows "refs_inv A p s'"
  unfolding refs_inv_def
proof (intro allI)
  fix w'
  from assms(1) have old: "(p(w := Suc (p w))) w' \<le> regs s w'"
    "rec_at s w' = None \<longrightarrow> w' \<notin> A \<and> regs s w' = (p(w := Suc (p w))) w'"
    "\<forall>r. rec_at s w' = Some r \<longrightarrow>
              RefCount r + int ((p(w := Suc (p w))) w') = (if w' \<in> A then 1 else 0) + int (regs s w')
              \<and> 0 < RefCount r \<and> (w' \<notin> A \<longrightarrow> \<not> StillWaiting r)"
    by (simp_all add: refs_inv_def)
  from assms(3) [of w'] old
  show "p w' \<le> regs s' w'
        \<and> (rec_at s' w' = None \<longrightarrow> w' \<notin> A \<and> regs s' w' = p w')
        \<and> (\<forall>r. rec_at s' w' = Some r \<longrightarrow>
              RefCount r + int (p w') = (if w' \<in> A then 1 else 0) + int (regs s' w')
              \<and> 0 < RefCount r \<and> (w' \<notin> A \<longrightarrow> \<not> StillWaiting r))"
    by (cases "w' = w") (auto simp: assms(2) split: if_splits)
qed

lemma pop_front_regs:
  assumes "pop_front e s = Inr s'" and "RegisteredWaits (events s ! e) = i # q"
  shows "regs s' w' + (if w' = Waiter i then 1 else 0) = regs s w'"
proof -
  from assms(1) have e: "e < length (events s)"
    and s': "s' = put_event e ((events s ! e)\<lparr>RegisteredWaits := tl (RegisteredWaits (events s ! e))\<rparr>) s"
    by (auto simp: prim_Inr)
  from regs_put_event [OF e, of "(events s ! e)\<lparr>RegisteredWaits := q\<rparr>" w'] assms(2)
  show ?thesis
    by (auto simp: s')
qed

lemma regs_events: "events s' = events s \<Longrightarrow> regs s' = regs s"
  by (simp add: regs_def fun_eq_iff)

lemma refs_inv_log [simp]: "refs_inv A p (log_call c s) = refs_inv A p s"
  by (simp add: refs_inv_def)

lemma head_pending:
  "e < length (events s) \<Longrightarrow> RegisteredWaits (events s ! e) = vis @ i # q
   \<Longrightarrow> cnt vis (Waiter i) < regs s (Waiter i)"
  using cnt_le_regs [of e s "Waiter i"] by simp

lemma walk_auto_refs:
  assumes "walk_auto t e q s = Inr (ret, s')" and "e < length (events s)"
    and "RegisteredWaits (events s ! e) = q" and "refs_inv A (\<lambda>w. 0) s"
  shows "refs_inv A (\<lambda>w. 0) s'"
  using assms
proof (induction q arbitrary: s)
  case Nil
  then show ?case by simp
next
  case (Cons i q)
  have "cnt [] (Waiter i) < regs s (Waiter i)"
    using Cons.prems(2) by (rule head_pending) (simp add: Cons.prems(3))
  then have pend: "(\<lambda>w. 0 :: nat) (Waiter i) < regs s (Waiter i)"
    by simp
  from Cons.prems(1) show ?case
  proof (cases rule: walk_auto_ConsE)
    case (departed s1 r s2 s3)
    from visit_departed [OF Cons.prems(4) pend departed(1,2,3,4)]
    have v: "refs_inv A ((\<lambda>w. 0)(Waiter i := Suc 0)) s2" "events s2 = events s"
      by simp_all
    have q2: "RegisteredWaits (events s2 ! e) = i # q"
      using v(2) Cons.prems(3) by simp
    have "refs_inv A (\<lambda>w. 0) s3"
    proof (rule refs_inv_dequeue [where w = "Waiter i" and s = s2])
      show "refs_inv A ((\<lambda>w. 0)(Waiter i := Suc 0)) s2" by (rule v(1))
      show "rec_at s3 = rec_at s2" by (rule event_ops_rec_at(4) [OF departed(5)])
      show "\<And>w'. regs s3 w' + (if w' = Waiter i then 1 else 0) = regs s2 w'"
        by (rule pop_front_regs [OF departed(5) q2])
    qed
    moreover have "e < length (events s3)" "RegisteredWaits (events s3 ! e) = q"
      using departed(5) q2 Cons.prems(2) v(2) by (auto simp: prim_Inr)
    ultimately show ?thesis
      using Cons.IH [OF departed(6)] by simp
  next
    case (live s1 r s2 s3 s4 s5)
    have ev1: "events s1 = events s"
      using live(1) by (rule wfmo_ops_events)
    have w2: "waiters s2 = waiters s1"
      using live(4) by (auto dest: event_ops_frame)
    have "regs s2 = regs s1"
      by (rule event_ops_regs(3) [OF live(4)])
    also have "regs s1 = regs s"
      by (rule regs_events [OF ev1])
    finally have r2: "regs s2 = regs s" .
    from visit_live [OF Cons.prems(4) pend live(1,2,3) w2 live(5,6) r2]
    have v: "refs_inv A ((\<lambda>w. 0)(Waiter i := Suc 0)) s4" "events s4 = events s2"
      by simp_all
    let ?s4 = "log_call (CondSignal t (WfmoCV (Waiter i))) s4"
    have e2: "e < length (events s2)" "RegisteredWaits (events s2 ! e) = i # q"
      using live(4) ev1 Cons.prems(2,3) by (auto simp: prim_Inr)
    have q4: "RegisteredWaits (events ?s4 ! e) = i # q"
      using v(2) e2(2) by simp
    have "refs_inv A (\<lambda>w. 0) s5"
    proof (rule refs_inv_dequeue [where w = "Waiter i" and s = ?s4])
      show "refs_inv A ((\<lambda>w. 0)(Waiter i := Suc 0)) ?s4" using v(1) by simp
      show "rec_at s5 = rec_at ?s4" by (rule event_ops_rec_at(4) [OF live(7)])
      show "\<And>w'. regs s5 w' + (if w' = Waiter i then 1 else 0) = regs ?s4 w'"
        by (rule pop_front_regs [OF live(7) q4])
    qed
    then show ?thesis
      using event_ops_refs(2) [OF live(8)] by simp
  qed
qed

lemma cnt_snoc: "(cnt vis)(Waiter i := Suc (cnt vis (Waiter i))) = cnt (vis @ [i])"
  by (rule ext) simp

lemma walk_manual_refs:
  assumes "walk_manual t q s = Inr s'" and "e < length (events s)"
    and "RegisteredWaits (events s ! e) = vis @ q" and "refs_inv A (cnt vis) s"
  shows "refs_inv A (cnt (vis @ q)) s' \<and> events s' = events s"
  using assms
proof (induction q arbitrary: s vis)
  case Nil
  then show ?case by simp
next
  case (Cons i q)
  have pend: "cnt vis (Waiter i) < regs s (Waiter i)"
    using Cons.prems(2,3) by (rule head_pending)
  have app: "vis @ i # q = (vis @ [i]) @ q"
    by simp
  from Cons.prems(1) show ?case
  proof (cases rule: walk_manual_ConsE)
    case (departed s1 r s2)
    from visit_departed [OF Cons.prems(4) pend departed(1,2,3,4)]
    have v: "refs_inv A (cnt (vis @ [i])) s2" "events s2 = events s"
      unfolding cnt_snoc by blast+
    have "e < length (events s2)" "RegisteredWaits (events s2 ! e) = (vis @ [i]) @ q"
      unfolding v(2) using Cons.prems(2,3) by simp_all
    from Cons.IH [OF departed(5) this v(1)]
    show ?thesis unfolding app v(2) .
  next
    case (live s1 r s2 s3)
    have ev1: "events s1 = events s"
      using live(1) by (rule wfmo_ops_events)
    from visit_live [OF Cons.prems(4) pend live(1,2,3) refl live(4,5) regs_events [OF ev1]]
    have v: "refs_inv A (cnt (vis @ [i])) s3" "events s3 = events s1"
      unfolding cnt_snoc by blast+
    let ?s3 = "log_call (CondSignal t (WfmoCV (Waiter i))) s3"
    have ev3: "events ?s3 = events s"
      using v(2) ev1 by simp
    have "e < length (events ?s3)" "RegisteredWaits (events ?s3 ! e) = (vis @ [i]) @ q"
      unfolding ev3 using Cons.prems(2,3) by simp_all
    moreover have "refs_inv A (cnt (vis @ [i])) ?s3"
      using v(1) by (simp only: refs_inv_log)
    ultimately have "refs_inv A (cnt ((vis @ [i]) @ q)) s' \<and> events s' = events ?s3"
      by (rule Cons.IH [OF live(6)])
    then show ?thesis unfolding app ev3 .
  qed
qed

lemma cnt_Nil_fun: "cnt [] = (\<lambda>w. 0)"
  by (rule ext) simp

lemma refs_inv_clear:
  assumes "refs_inv A (cnt q) s" and "e < length (events s)"
    and "RegisteredWaits (events s ! e) = q" and "RegisteredWaits ev = []"
  shows "refs_inv A (\<lambda>w. 0) (put_event e ev s)"
  unfolding refs_inv_def
proof (intro allI)
  fix w
  let ?s' = "put_event e ev s"
  from regs_put_event [OF assms(2), of ev w] assms(3,4)
  have r: "regs ?s' w + cnt q w = regs s w"
    by simp
  from assms(1) have old: "cnt q w \<le> regs s w"
    "rec_at s w = None \<longrightarrow> w \<notin> A \<and> regs s w = cnt q w"
    "\<forall>r. rec_at s w = Some r \<longrightarrow>
              RefCount r + int (cnt q w) = (if w \<in> A then 1 else 0) + int (regs s w)
              \<and> 0 < RefCount r \<and> (w \<notin> A \<longrightarrow> \<not> StillWaiting r)"
    by (simp_all add: refs_inv_def)
  from r old
  show "0 \<le> regs ?s' w
        \<and> (rec_at ?s' w = None \<longrightarrow> w \<notin> A \<and> regs ?s' w = 0)
        \<and> (\<forall>r. rec_at ?s' w = Some r \<longrightarrow>
              RefCount r + int 0 = (if w \<in> A then 1 else 0) + int (regs ?s' w)
              \<and> 0 < RefCount r \<and> (w \<notin> A \<longrightarrow> \<not> StillWaiting r))"
    by (auto split: if_splits)
qed

lemma SetEvent_refs:
  assumes "SetEvent t e s = Inr (result, s')" and "refs_ok A s"
  shows "refs_ok A s'"
  using assms(1)
proof (cases rule: SetEventE)
  case (handed s1 s2)
  have i2: "refs_inv A (\<lambda>w. 0) s2"
    using assms(2) event_ops_refs(1) [OF handed(1)] event_ops_refs(3) [OF handed(2)]
    by (simp add: refs_ok_def)
  have e2: "e < length (events s2)"
    using handed(2) by (auto simp: prim_Inr)
  from walk_auto_refs [OF handed(4) e2 refl i2] show ?thesis
    by (simp add: refs_ok_def)
next
  case (published s1 s2 s3 s4)
  have i2: "refs_inv A (\<lambda>w. 0) s2"
    using assms(2) event_ops_refs(1) [OF published(1)] event_ops_refs(3) [OF published(2)]
    by (simp add: refs_ok_def)
  have e2: "e < length (events s2)"
    using published(2) by (auto simp: prim_Inr)
  from walk_auto_refs [OF published(4) e2 refl i2] event_ops_refs(2) [OF published(6)]
  show ?thesis
    by (simp add: refs_ok_def published(7))
next
  case (unreachable s1 s2)
  have i2: "refs_inv A (\<lambda>w. 0) s2"
    using assms(2) event_ops_refs(1) [OF unreachable(1)] event_ops_refs(3) [OF unreachable(2)]
    by (simp add: refs_ok_def)
  have e2: "e < length (events s2)"
    using unreachable(2) by (auto simp: prim_Inr)
  from walk_auto_refs [OF unreachable(4) e2 refl i2] show ?thesis
    by (simp add: refs_ok_def)
next
  case (manual s1 s2 s3 s4)
  have i2: "refs_inv A (cnt []) s2"
    using assms(2) event_ops_refs(1) [OF manual(1)] event_ops_refs(3) [OF manual(2)]
    by (simp add: refs_ok_def cnt_Nil_fun)
  have e2: "e < length (events s2)"
    using manual(2) by (auto simp: prim_Inr)
  have q2: "RegisteredWaits (events s2 ! e) = [] @ RegisteredWaits (events s2 ! e)"
    by simp
  from walk_manual_refs [OF manual(4) e2 q2 i2]
  have v: "refs_inv A (cnt (RegisteredWaits (events s2 ! e))) s3" "events s3 = events s2"
    by simp_all
  let ?s3 = "put_event e ((events s3 ! e)\<lparr>RegisteredWaits := []\<rparr>) s3"
  have "refs_inv A (\<lambda>w. 0) ?s3"
    using v(1) manual(5) by (rule refs_inv_clear) (simp_all add: v(2))
  with event_ops_refs(2) [OF manual(6)] show ?thesis
    by (simp add: refs_ok_def manual(7))
qed

lemma ResetEvent_refs:
  assumes "ResetEvent t e s = Inr (result, s')" and "refs_ok A s"
  shows "refs_ok A s'"
  using assms(1)
proof (cases rule: ResetEventE)
  case (1 s1 s2)
  with assms(2) event_ops_refs(1) [OF 1(1)] event_ops_refs(3) [OF 1(2)]
    event_ops_refs(2) [OF 1(3)]
  show ?thesis by (simp add: refs_ok_def)
qed

lemma perform_refs: "perform a s = Inr s' \<Longrightarrow> refs_ok A s \<Longrightarrow> refs_ok A s'"
  by (erule performE) (auto dest: SetEvent_refs ResetEvent_refs)

lemma run_env_refs: "run_env acts s = Inr s' \<Longrightarrow> refs_ok A s \<Longrightarrow> refs_ok A s'"
proof (induction acts arbitrary: s)
  case Nil
  then show ?case by simp
next
  case (Cons a acts)
  from Cons.prems(1) obtain s1 where "perform a s = Inr s1" "run_env acts s1 = Inr s'"
    by (rule run_env_ConsE)
  with Cons.IH Cons.prems(2) show ?case
    by (blast dest: perform_refs)
qed

lemma refs_inv_put_wfmo:
  assumes inv: "refs_inv A p s" and w: "w < length (waiters s)" "waiters s ! w = Some r"
    and same: "RefCount r' = RefCount r" "StillWaiting r' \<longrightarrow> StillWaiting r"
  shows "refs_inv A p (put_wfmo w r' s)"
  unfolding refs_inv_def
proof (intro allI)
  fix w'
  let ?s' = "put_wfmo w r' s"
  from inv have old: "p w' \<le> regs s w'"
    "rec_at s w' = None \<longrightarrow> w' \<notin> A \<and> regs s w' = p w'"
    "\<forall>r. rec_at s w' = Some r \<longrightarrow>
              RefCount r + int (p w') = (if w' \<in> A then 1 else 0) + int (regs s w')
              \<and> 0 < RefCount r \<and> (w' \<notin> A \<longrightarrow> \<not> StillWaiting r)"
    by (simp_all add: refs_inv_def)
  have rw: "rec_at s w = Some r"
    using w by (simp add: rec_at_Some)
  show "p w' \<le> regs ?s' w'
        \<and> (rec_at ?s' w' = None \<longrightarrow> w' \<notin> A \<and> regs ?s' w' = p w')
        \<and> (\<forall>r. rec_at ?s' w' = Some r \<longrightarrow>
              RefCount r + int (p w') = (if w' \<in> A then 1 else 0) + int (regs ?s' w')
              \<and> 0 < RefCount r \<and> (w' \<notin> A \<longrightarrow> \<not> StillWaiting r))"
  proof (cases "w' = w")
    case True
    with old rw same w(1) show ?thesis by auto
  next
    case False
    with old show ?thesis by simp
  qed
qed

lemma wfmo_mutex_refs:
  "lock_wfmo t w s = Inr s' \<Longrightarrow> refs_inv A p s \<Longrightarrow> refs_inv A p s'"
  "unlock_wfmo w s = Inr s' \<Longrightarrow> refs_inv A p s \<Longrightarrow> refs_inv A p s'"
  by (auto simp: prim_Inr intro: refs_inv_put_wfmo)

lemma cond_wait_event_refs:
  assumes "cond_wait_event t e ts acts s = Inr s'" and "refs_ok A s"
  shows "refs_ok A s'"
  using assms(1)
proof (cases rule: cond_wait_eventE)
  case (1 s1 s2)
  from assms(2) event_ops_refs(2) [OF 1(1)] have "refs_ok A s1"
    by (simp add: refs_ok_def)
  then have "refs_ok A s2"
    by (rule run_env_refs [OF 1(2)])
  with event_ops_refs(1) [OF 1(3)] show ?thesis
    by (simp add: refs_ok_def)
qed

lemma cond_wait_wfmo_refs:
  assumes "cond_wait_wfmo t w ts acts s = Inr s'" and "refs_ok A s"
  shows "refs_ok A s'"
  using assms(1)
proof (cases rule: cond_wait_wfmoE)
  case (1 s1 s2)
  from assms(2) have "refs_inv A (\<lambda>w. 0) (log_call (wait_call t (WfmoCV w) ts) s)"
    by (simp add: refs_ok_def)
  with 1(1) have "refs_ok A s1"
    unfolding refs_ok_def by (rule wfmo_mutex_refs(2))
  then have "refs_ok A s2"
    by (rule run_env_refs [OF 1(2)])
  with 1(3) show ?thesis
    unfolding refs_ok_def by (rule wfmo_mutex_refs(1))
qed

lemma wait_loop_refs:
  "wait_loop t e ts wakeups s = Inr (result, s') \<Longrightarrow> refs_ok A s \<Longrightarrow> refs_ok A s'"
proof (induction wakeups arbitrary: s)
  case Nil
  then show ?case by simp
next
  case (Cons wk ws)
  obtain rc acts where wk: "wk = (rc, acts)" by (cases wk)
  from Cons.prems(1) [unfolded wk] show ?case
  proof (cases rule: wait_loop_ConsE)
    case (again s1)
    from cond_wait_event_refs [OF again(1) Cons.prems(2)] Cons.IH [OF again(5)]
    show ?thesis by blast
  next
    case out
    from cond_wait_event_refs [OF out(1) Cons.prems(2)] show ?thesis .
  qed
qed

lemma UnlockedWaitForEvent_refs:
  assumes "UnlockedWaitForEvent t e ms tv wakeups s = Inr (result, s')" and "refs_ok A s"
  shows "refs_ok A s'"
  using assms(1)
proof (cases rule: UnlockedWaitForEventE)
  case zero
  with assms(2) show ?thesis by simp
next
  case (acquired s1)
  from wait_loop_refs [OF acquired(4) assms(2)] event_ops_refs(3) [OF acquired(7)]
  show ?thesis by (simp add: refs_ok_def)
next
  case waited
  from wait_loop_refs [OF waited(4) assms(2)] show ?thesis .
next
  case consumed
  from assms(2) event_ops_refs(3) [OF consumed(4)] show ?thesis
    by (simp add: refs_ok_def)
next
  case sticky
  with assms(2) show ?thesis by simp
qed

lemma WaitForEvent_refs:
  assumes "WaitForEvent t e ms tv wakeups s = Inr (result, s')" and "refs_ok A s"
  shows "refs_ok A s'"
  using assms(1)
proof (cases rule: WaitForEventE)
  case (1 s1 s2)
  from assms(2) event_ops_refs(1) [OF 1(1)] have "refs_ok A s1"
    by (simp add: refs_ok_def)
  then have "refs_ok A s2"
    by (rule UnlockedWaitForEvent_refs [OF 1(2)])
  with event_ops_refs(2) [OF 1(3)] show ?thesis
    by (simp add: refs_ok_def)
qed

lemma rec_at_new_wfmo:
  "rec_at (new_wfmo t waitAll count s) w' =
     (if w' = length (waiters s)
      then Some \<lparr>Mutex = Some t, Status = (if waitAll then count else - 1),
                 StillWaiting = True, RefCount = 1, WaitAll = waitAll\<rparr>
      else rec_at s w')"
  by (auto simp: rec_at_def new_wfmo_def nth_append)

lemma new_wfmo_refs:
  assumes "refs_ok A s"
  shows "refs_ok (insert (length (waiters s)) A) (new_wfmo t waitAll count s)
     \<and> length (waiters s) \<notin> A"
proof -
  let ?w = "length (waiters s)"
  let ?s' = "new_wfmo t waitAll count s"
  have none: "rec_at s ?w = None"
    by (simp add: rec_at_def)
  from assms have "\<forall>w'. 0 \<le> regs s w'
        \<and> (rec_at s w' = None \<longrightarrow> w' \<notin> A \<and> regs s w' = 0)
        \<and> (\<forall>r. rec_at s w' = Some r \<longrightarrow>
              RefCount r + int 0 = (if w' \<in> A then 1 else 0) + int (regs s w')
              \<and> 0 < RefCount r \<and> (w' \<notin> A \<longrightarrow> \<not> StillWaiting r))"
    unfolding refs_ok_def refs_inv_def .
  then have old: "\<And>w'. rec_at s w' = None \<longrightarrow> w' \<notin> A \<and> regs s w' = 0"
    "\<And>w'. \<forall>r. rec_at s w' = Some r \<longrightarrow>
              RefCount r + int 0 = (if w' \<in> A then 1 else 0) + int (regs s w')
              \<and> 0 < RefCount r \<and> (w' \<notin> A \<longrightarrow> \<not> StillWaiting r)"
    by blast+
  from old(1) [of ?w] none have fresh: "?w \<notin> A" "regs s ?w = 0"
    by simp_all
  have "refs_inv (insert ?w A) (\<lambda>w. 0) ?s'"
    unfolding refs_inv_def
  proof (intro allI)
    fix w'
    show "0 \<le> regs ?s' w'
        \<and> (rec_at ?s' w' = None \<longrightarrow> w' \<notin> insert ?w A \<and> regs ?s' w' = 0)
        \<and> (\<forall>r. rec_at ?s' w' = Some r \<longrightarrow>
              RefCount r + int 0 = (if w' \<in> insert ?w A then 1 else 0) + int (regs ?s' w')
              \<and> 0 < RefCount r \<and> (w' \<notin> insert ?w A \<longrightarrow> \<not> StillWaiting r))"
    proof (cases "w' = ?w")
      case True
      with fresh show ?thesis by (simp add: rec_at_new_wfmo)
    next
      case False
      with old(1) [of w'] old(2) [of w'] show ?thesis by (auto simp: rec_at_new_wfmo)
    qed
  qed
  with fresh(1) show ?thesis by (simp add: refs_ok_def)
qed

lemma refs_inv_register:
  assumes inv: "refs_inv A p s" and e: "e < length (events s)"
    and w: "w < length (waiters s)" "waiters s ! w = Some r"
  shows "refs_inv A p
           (put_wfmo w (r\<lparr>RefCount := RefCount r + 1\<rparr>)
              (put_event e ((events s ! e)\<lparr>RegisteredWaits :=
                  RegisteredWaits (events s ! e) @ [\<lparr>Waiter = w, WaitIndex = k\<rparr>]\<rparr>) s))"
    (is "refs_inv A p ?s'")
  unfolding refs_inv_def
proof (intro allI)
  fix w'
  let ?ev = "(events s ! e)\<lparr>RegisteredWaits :=
                  RegisteredWaits (events s ! e) @ [\<lparr>Waiter = w, WaitIndex = k\<rparr>]\<rparr>"
  from regs_put_event [OF e, of ?ev w']
  have r: "regs ?s' w' = regs s w' + (if w' = w then 1 else 0)"
    by simp
  from inv have old: "p w' \<le> regs s w'"
    "rec_at s w' = None \<longrightarrow> w' \<notin> A \<and> regs s w' = p w'"
    "\<forall>r. rec_at s w' = Some r \<longrightarrow>
              RefCount r + int (p w') = (if w' \<in> A then 1 else 0) + int (regs s w')
              \<and> 0 < RefCount r \<and> (w' \<notin> A \<longrightarrow> \<not> StillWaiting r)"
    by (simp_all add: refs_inv_def)
  have rw: "rec_at s w = Some r"
    using w by (simp add: rec_at_Some)
  have ra: "rec_at ?s' w' = (if w' = w then Some (r\<lparr>RefCount := RefCount r + 1\<rparr>) else rec_at s w')"
    using w(1) by simp
  show "p w' \<le> regs ?s' w'
        \<and> (rec_at ?s' w' = None \<longrightarrow> w' \<notin> A \<and> regs ?s' w' = p w')
        \<and> (\<forall>r. rec_at ?s' w' = Some r \<longrightarrow>
              RefCount r + int (p w') = (if w' \<in> A then 1 else 0) + int (regs ?s' w')
              \<and> 0 < RefCount r \<and> (w' \<notin> A \<longrightarrow> \<not> StillWaiting r))"
  proof (cases "w' = w")
    case True
    with old rw show ?thesis unfolding ra r by auto
  next
    case False
    with old show ?thesis unfolding ra r by simp
  qed
qed

lemma register_loop_refs:
  "register_loop t evs w waitAll tv i n s = Inr (dn, s') \<Longrightarrow> refs_ok A s \<Longrightarrow> refs_ok A s'"
proof (induction n arbitrary: i s)
  case 0
  then show ?case by simp
next
  case (Suc n)
  from Suc.prems(1) show ?case
  proof (cases rule: register_loop_SucE)
    case (counted s1 s2 s3 r)
    from Suc.prems(2) event_ops_refs(1) [OF counted(2)] have "refs_ok A s1"
      by (simp add: refs_ok_def)
    then have "refs_ok A s2"
      by (rule UnlockedWaitForEvent_refs [OF counted(3)])
    with event_ops_refs(2) [OF counted(4)] have "refs_inv A (\<lambda>w. 0) s3"
      by (simp add: refs_ok_def)
    moreover from counted(5) have "w < length (waiters s3)" "waiters s3 ! w = Some r"
      by simp_all
    ultimately have "refs_inv A (\<lambda>w. 0) (put_wfmo w (r\<lparr>Status := Status r - 1\<rparr>) s3)"
      by (rule refs_inv_put_wfmo) simp_all
    then show ?thesis
      unfolding refs_ok_def [symmetric] by (rule Suc.IH [OF counted(8)])
  next
    case (fired s1 s2 s3 r)
    from Suc.prems(2) event_ops_refs(1) [OF fired(2)] have "refs_ok A s1"
      by (simp add: refs_ok_def)
    then have "refs_ok A s2"
      by (rule UnlockedWaitForEvent_refs [OF fired(3)])
    with event_ops_refs(2) [OF fired(4)] have "refs_inv A (\<lambda>w. 0) s3"
      by (simp add: refs_ok_def)
    moreover from fired(5) have "w < length (waiters s3)" "waiters s3 ! w = Some r"
      by simp_all
    ultimately have "refs_inv A (\<lambda>w. 0) (put_wfmo w (r\<lparr>Status := int i\<rparr>) s3)"
      by (rule refs_inv_put_wfmo) simp_all
    then show ?thesis
      by (simp add: refs_ok_def fired(8))
  next
    case (registered s1 result s2 r s3)
    from Suc.prems(2) event_ops_refs(1) [OF registered(2)] have "refs_ok A s1"
      by (simp add: refs_ok_def)
    then have "refs_ok A s2"
      by (rule UnlockedWaitForEvent_refs [OF registered(3)])
    then have "refs_inv A (\<lambda>w. 0) s2"
      by (simp add: refs_ok_def)
    moreover from registered(6) have "w < length (waiters s2)" "waiters s2 ! w = Some r"
      by simp_all
    ultimately have "refs_inv A (\<lambda>w. 0)
           (put_wfmo w (r\<lparr>RefCount := RefCount r + 1\<rparr>)
              (put_event (evs ! i) ((events s2 ! (evs ! i))\<lparr>RegisteredWaits :=
                  RegisteredWaits (events s2 ! (evs ! i)) @ [\<lparr>Waiter = w, WaitIndex = int i\<rparr>]\<rparr>) s2))"
      using registered(5) by (intro refs_inv_register)
    with event_ops_refs(2) [OF registered(7)] have "refs_ok A s3"
      by (simp add: refs_ok_def)
    then show ?thesis
      by (rule Suc.IH [OF registered(8)])
  qed
qed

lemma wfmo_loop_refs:
  "wfmo_loop t w waitAll ts result wakeups s = Inr (result', s') \<Longrightarrow> refs_ok A s
   \<Longrightarrow> refs_ok A s'"
proof (induction wakeups arbitrary: s result)
  case Nil
  from Nil.prems(1) show ?case
    by (cases rule: wfmo_loopE) (use Nil.prems(2) in auto)
next
  case (Cons wk ws)
  from Cons.prems(1) show ?case
  proof (cases rule: wfmo_loopE)
    case (satisfied r)
    with Cons.prems(2) show ?thesis by simp
  next
    case (failed r rc acts ws')
    from cond_wait_wfmo_refs [OF failed(4) Cons.prems(2)] show ?thesis .
  next
    case (again r acts ws' s1)
    from again(3) have ws': "ws' = ws" by simp
    from cond_wait_wfmo_refs [OF again(4) Cons.prems(2)] have "refs_ok A s1" .
    then show ?thesis
      by (rule Cons.IH [OF again(5) [unfolded ws']])
  qed
qed

lemma finalize_refs:
  assumes "finalize t w result s = Inr (result', idx, s')" and inv: "refs_ok (insert w A) s"
    and "w \<notin> A"
  shows "refs_ok A s'"
proof -
  from inv have all: "\<forall>w'. 0 \<le> regs s w'
        \<and> (rec_at s w' = None \<longrightarrow> w' \<notin> insert w A \<and> regs s w' = 0)
        \<and> (\<forall>r. rec_at s w' = Some r \<longrightarrow>
              RefCount r + int 0 = (if w' \<in> insert w A then 1 else 0) + int (regs s w')
              \<and> 0 < RefCount r \<and> (w' \<notin> insert w A \<longrightarrow> \<not> StillWaiting r))"
    unfolding refs_ok_def refs_inv_def .
  have old1: "rec_at s w' = None \<longrightarrow> w' \<notin> insert w A \<and> regs s w' = 0" for w'
    using all by blast
  have old2: "RefCount r = (if w' \<in> insert w A then 1 else 0) + int (regs s w')
              \<and> 0 < RefCount r \<and> (w' \<notin> insert w A \<longrightarrow> \<not> StillWaiting r)"
    if "rec_at s w' = Some r" for w' r
  proof -
    from all that have "RefCount r + int 0 = (if w' \<in> insert w A then 1 else 0) + int (regs s w')
              \<and> 0 < RefCount r \<and> (w' \<notin> insert w A \<longrightarrow> \<not> StillWaiting r)"
      by blast
    then show ?thesis by simp
  qed
  note old = old1 old2
  have goal: "refs_ok A s'"
    if r: "w < length (waiters s)" "waiters s ! w = Some r"
      and rec: "\<And>w'. rec_at s' w' = (if w' = w then x else rec_at s w')"
      and regs: "regs s' = regs s"
      and x: "x = (if RefCount r = 1 then None
                   else Some (r\<lparr>StillWaiting := False, RefCount := RefCount r - 1, Mutex := m\<rparr>))"
    for r x m
    unfolding refs_ok_def refs_inv_def
  proof (intro allI)
    fix w'
    have rw: "rec_at s w = Some r"
      using r by (simp add: rec_at_Some)
    from old(2) [OF rw] have c: "RefCount r = 1 + int (regs s w)"
      by simp
    show "0 \<le> regs s' w'
        \<and> (rec_at s' w' = None \<longrightarrow> w' \<notin> A \<and> regs s' w' = 0)
        \<and> (\<forall>r. rec_at s' w' = Some r \<longrightarrow>
              RefCount r + int 0 = (if w' \<in> A then 1 else 0) + int (regs s' w')
              \<and> 0 < RefCount r \<and> (w' \<notin> A \<longrightarrow> \<not> StillWaiting r))"
    proof (cases "w' = w")
      case True
      with c assms(3) show ?thesis
        unfolding rec regs x by auto
    next
      case False
      with old(1) [of w'] old(2) [of w'] show ?thesis
        unfolding rec regs by auto
    qed
  qed
  from assms(1) show ?thesis
  proof (cases rule: finalizeE)
    case (last r s1)
    let ?r = "r\<lparr>StillWaiting := False, RefCount := RefCount r - 1\<rparr>"
    from last(1) have r: "w < length (waiters s)" "waiters s ! w = Some r"
      by simp_all
    from last(3) have s1: "events s1 = events s" "waiters s1 = (waiters s)[w := Some ?r]"
      by (auto simp: prim_Inr put_wfmo_def log_call_def)
    show ?thesis
    proof (rule goal [OF r, where x = None and m = None])
      show "rec_at s' w' = (if w' = w then None else rec_at s w')" for w'
        using r(1) s1(2) by (auto simp: last(4) rec_at_def delete_wfmo_def)
      show "regs s' = regs s"
        using s1(1) by (simp add: last(4) regs_def fun_eq_iff delete_wfmo_def)
      show "None = (if RefCount r = 1 then None
                   else Some (r\<lparr>StillWaiting := False, RefCount := RefCount r - 1, Mutex := None\<rparr>))"
        using last(2) by simp
    qed
  next
    case (shared r)
    let ?r = "r\<lparr>StillWaiting := False, RefCount := RefCount r - 1\<rparr>"
    from shared(1) have r: "w < length (waiters s)" "waiters s ! w = Some r"
      by simp_all
    from shared(3) r(1) have s': "events s' = events s"
      "waiters s' = (waiters s)[w := Some (?r\<lparr>Mutex := None\<rparr>)]"
      by (auto simp: prim_Inr put_wfmo_def)
    show ?thesis
    proof (rule goal [OF r, where x = "Some (?r\<lparr>Mutex := None\<rparr>)" and m = None])
      show "rec_at s' w' = (if w' = w then Some (?r\<lparr>Mutex := None\<rparr>) else rec_at s w')" for w'
        using r(1) s'(2) by (auto simp: rec_at_def)
      show "regs s' = regs s"
        using s'(1) by (simp add: regs_def fun_eq_iff)
      show "Some (?r\<lparr>Mutex := None\<rparr>) = (if RefCount r = 1 then None
                   else Some (r\<lparr>StillWaiting := False, RefCount := RefCount r - 1, Mutex := None\<rparr>))"
        using shared(2) by simp
    qed
  qed
qed

lemma WaitForMultipleEvents_refs:
  assumes "WaitForMultipleEvents t evs count waitAll ms tv wakeups s = Inr (result, idx, s')"
    and "refs_ok A s"
  shows "refs_ok A s'"
proof -
  let ?w = "length (waiters s)"
  from new_wfmo_refs [OF assms(2)] have
    n: "refs_ok (insert ?w A) (new_wfmo t waitAll count s)" "?w \<notin> A"
    by simp_all
  from assms(1) show ?thesis
  proof (cases rule: WaitForMultipleEventsE)
    case (found s1)
    from register_loop_refs [OF found(1) n(1)] have "refs_ok (insert ?w A) s1" .
    from finalize_refs [OF found(2) this n(2)] show ?thesis .
  next
    case (zero s1)
    from register_loop_refs [OF zero(1) n(1)] have "refs_ok (insert ?w A) s1" .
    from finalize_refs [OF zero(3) this n(2)] show ?thesis .
  next
    case (waited s1 r2 s2)
    from register_loop_refs [OF waited(1) n(1)] have "refs_ok (insert ?w A) s1" .
    from wfmo_loop_refs [OF waited(3) this] have "refs_ok (insert ?w A) s2" .
    from finalize_refs [OF waited(4) this n(2)] show ?thesis .
  qed
qed

lemma CreateEvent_refs:
  assumes "CreateEvent t manualReset initialState s = Inr (e, s')" and "refs_ok A s"
  shows "refs_ok A s'"
proof -
  let ?s1 = "s\<lparr>events := events s @
                  [\<lparr>AutoReset = \<not> manualReset, EvMutex = None, State = False,
                    RegisteredWaits = []\<rparr>]\<rparr>"
  have "rec_at ?s1 = rec_at s" "regs ?s1 = regs s"
    by (simp_all add: rec_at_def regs_def fun_eq_iff)
  then have "refs_ok A ?s1 = refs_ok A s"
    unfolding refs_ok_def by (rule refs_inv_cong)
  moreover from assms(1) obtain result where "SetEvent t (length (events s)) ?s1 = Inr (result, s')"
    by (auto simp: CreateEvent_def Let_def rbind_eq_Inr)
  ultimately show ?thesis
    using assms(2) by (blast dest: SetEvent_refs)
qed

lemma refs_ok_count:
  assumes "refs_ok A s" and "rec_at s w = Some r"
  shows "RefCount r = (if w \<in> A then 1 else 0) + int (regs s w)"
proof -
  from assms(1) have "\<forall>w. 0 \<le> regs s w
        \<and> (rec_at s w = None \<longrightarrow> w \<notin> A \<and> regs s w = 0)
        \<and> (\<forall>r. rec_at s w = Some r \<longrightarrow>
              RefCount r + int 0 = (if w \<in> A then 1 else 0) + int (regs s w)
              \<and> 0 < RefCount r \<and> (w \<notin> A \<longrightarrow> \<not> StillWaiting r))"
    unfolding refs_ok_def refs_inv_def .
  with assms(2) have "RefCount r + int 0 = (if w \<in> A then 1 else 0) + int (regs s w)"
    by blast
  then show ?thesis by simp
qed

lemma refs_ok_world_two: "refs_ok {} world_two"
  by (simp add: refs_ok_def refs_inv_def rec_at_def regs_def world_two_def ev_manual_set_def
      ev_auto_clear_def)

lemma finalize_rec:
  assumes "finalize t w result s = Inr (result', idx, s')"
  shows "\<exists>r. rec_at s w = Some r
     \<and> rec_at s' w = (if RefCount r = 1 then None
                      else Some (r\<lparr>Mutex := None, StillWaiting := False,
                                  RefCount := RefCount r - 1\<rparr>))
     \<and> trace s' = trace s @ (if RefCount r = 1 then [MutexDestroy t w (Mutex r), CondDestroy t w]
                             else [])"
  using assms
proof (cases rule: finalizeE)
  case (last r s1)
  from last(1) have r: "w < length (waiters s)" "waiters s ! w = Some r"
    by simp_all
  from last(3) r have s1: "length (waiters s1) = length (waiters s)"
    "trace s1 = trace s @ [MutexDestroy t w (Mutex r), CondDestroy t w]"
    by (auto simp: prim_Inr put_wfmo_def log_call_def)
  with r last(2) show ?thesis
    by (simp add: last(4) rec_at_def delete_wfmo_def)
next
  case (shared r)
  from shared(1) have r: "w < length (waiters s)" "waiters s ! w = Some r"
    by simp_all
  from shared(3) r(1) have
    "waiters s' = (waiters s)[w := Some (r\<lparr>StillWaiting := False, RefCount := RefCount r - 1,
                                            Mutex := None\<rparr>)]"
    "trace s' = trace s"
    by (auto simp: prim_Inr put_wfmo_def)
  with r shared(2) show ?thesis
    by (simp add: rec_at_def)
qed

lemma visit_rec:
  assumes "take_reference t w s = Inr s1" and "get_wfmo w s1 = Inr r1" and "\<not> StillWaiting r1"
    and "drop_departed t w s1 = Inr s2"
  shows "\<exists>r. rec_at s w = Some r
     \<and> rec_at s2 w = (if RefCount r = 1 then None
                      else Some (r\<lparr>Mutex := None, RefCount := RefCount r - 1\<rparr>))
     \<and> trace s2 = trace s @ (if RefCount r = 1 then [MutexDestroy t w (Some t), CondDestroy t w]
                             else [])"
proof -
  from departed_step [OF assms] obtain r where
    r: "w < length (waiters s)" "waiters s ! w = Some r"
    and tr: "trace s2 = trace s @ (if RefCount r = 1 then [MutexDestroy t w (Some t), CondDestroy t w]
                                   else [])"
    and w2: "waiters s2 = (waiters s)[w := (if RefCount r = 1 then None
                    else Some (r\<lparr>Mutex := None, RefCount := RefCount r - 1\<rparr>))]"
    by blast
  from r w2 have "rec_at s w = Some r"
    "rec_at s2 w = (if RefCount r = 1 then None
                      else Some (r\<lparr>Mutex := None, RefCount := RefCount r - 1\<rparr>))"
    by (simp_all add: rec_at_def)
  with tr show ?thesis by blast
qed

text \<open>Every call of \<open>CreateEvent\<close>, \<open>SetEvent\<close>, \<open>ResetEvent\<close>, \<open>WaitForEvent\<close> and
  \<open>WaitForMultipleEvents\<close> keeps the invariant, whatever other threads do during its
  waits. A new record has count 1 and joins the records with a waiter. The waiter that
  leaves, and the signaler that visits the registration of a departed waiter, take one
  from the count, and reclaim the record if and only if the count was 1, in the same
  step.\<close>

lemma operations_keep_refcount:
  "(refs_ok A s \<longrightarrow>
      (CreateEvent t manualReset initialState s = Inr (e', s0) \<longrightarrow> refs_ok A s0)
    \<and> (SetEvent t e s = Inr (r1, s1) \<longrightarrow> refs_ok A s1)
    \<and> (ResetEvent t e s = Inr (r2, s2) \<longrightarrow> refs_ok A s2)
    \<and> (WaitForEvent t e ms tv wakeups s = Inr (r3, s3) \<longrightarrow> refs_ok A s3)
    \<and> (WaitForMultipleEvents t evs count waitAll ms tv wakeups s = Inr (r4, idx, s4)
          \<longrightarrow> refs_ok A s4)
    \<and> length (waiters s) \<notin> A
    \<and> refs_ok (insert (length (waiters s)) A) (new_wfmo t waitAll count s)
    \<and> map_option RefCount (rec_at (new_wfmo t waitAll count s) (length (waiters s))) = Some 1)
   \<and> (refs_ok (insert w A) s \<and> w \<notin> A \<and> finalize t w result s = Inr (r5, idx5, s5) \<longrightarrow>
        refs_ok A s5
        \<and> (\<exists>r. rec_at s w = Some r
              \<and> rec_at s5 w = (if RefCount r = 1 then None
                               else Some (r\<lparr>Mutex := None, StillWaiting := False,
                                           RefCount := RefCount r - 1\<rparr>))
              \<and> trace s5 = trace s @ (if RefCount r = 1
                                      then [MutexDestroy t w (Mutex r), CondDestroy t w]
                                      else [])))
   \<and> (take_reference t w s = Inr s6 \<and> get_wfmo w s6 = Inr r6 \<and> \<not> StillWaiting r6
        \<and> drop_departed t w s6 = Inr s7 \<longrightarrow>
        (\<exists>r. rec_at s w = Some r
              \<and> rec_at s7 w = (if RefCount r = 1 then None
                               else Some (r\<lparr>Mutex := None, RefCount := RefCount r - 1\<rparr>))
              \<and> trace s7 = trace s @ (if RefCount r = 1
                                      then [MutexDestroy t w (Some t), CondDestroy t w]
                                      else [])))"
proof (intro conjI impI)
  assume "refs_ok A s"
  then show "length (waiters s) \<notin> A"
    "refs_ok (insert (length (waiters s)) A) (new_wfmo t waitAll count s)"
    by (simp_all add: new_wfmo_refs)
next
  show "map_option RefCount (rec_at (new_wfmo t waitAll count s) (length (waiters s))) = Some 1"
    by (simp add: rec_at_new_wfmo)
next
  assume "refs_ok (insert w A) s \<and> w \<notin> A \<and> finalize t w result s = Inr (r5, idx5, s5)"
  then show "refs_ok A s5"
    by (blast intro: finalize_refs)
next
  assume "refs_ok (insert w A) s \<and> w \<notin> A \<and> finalize t w result s = Inr (r5, idx5, s5)"
  then have "finalize t w result s = Inr (r5, idx5, s5)" by simp
  then show "\<exists>r. rec_at s w = Some r
              \<and> rec_at s5 w = (if RefCount r = 1 then None
                               else Some (r\<lparr>Mutex := None, StillWaiting := False,
                                           RefCount := RefCount r - 1\<rparr>))
              \<and> trace s5 = trace s @ (if RefCount r = 1
                                      then [MutexDestroy t w (Mutex r), CondDestroy t w]
                                      else [])"
    by (rule finalize_rec)
next
  assume "take_reference t w s = Inr s6 \<and> get_wfmo w s6 = Inr r6 \<and> \<not> StillWaiting r6
        \<and> drop_departed t w s6 = Inr s7"
  then have "take_reference t w s = Inr s6" "get_wfmo w s6 = Inr r6" "\<not> StillWaiting r6"
    "drop_departed t w s6 = Inr s7"
    by simp_all
  then show "\<exists>r. rec_at s w = Some r
              \<and> rec_at s7 w = (if RefCount r = 1 then None
                               else Some (r\<lparr>Mutex := None, RefCount := RefCount r - 1\<rparr>))
              \<and> trace s7 = trace s @ (if RefCount r = 1
                                      then [MutexDestroy t w (Some t), CondDestroy t w]
                                      else [])"
    by (rule visit_rec)
qed (blast intro: CreateEvent_refs SetEvent_refs ResetEvent_refs WaitForEvent_refs
      WaitForMultipleEvents_refs)+

lemma operations_keep_refcount_instance:
  "refs_ok {} world_two
   \<and> CreateEvent 1 True False world_two =
       Inr (2, world_two\<lparr>events := [ev_manual_set, ev_auto_clear, ev_manual_set],
                        trace := [CondBroadcast 1 (EventCV 2)]\<rparr>)
   \<and> refs_ok {} (world_two\<lparr>events := [ev_manual_set, ev_auto_clear, ev_manual_set],
                           trace := [CondBroadcast 1 (EventCV 2)]\<rparr>)
   \<and> ResetEvent 2 0 world_two =
       Inr (0, world_two\<lparr>events := [ev_manual_set\<lparr>State := False\<rparr>, ev_auto_clear]\<rparr>)
   \<and> refs_ok {} (world_two\<lparr>events := [ev_manual_set\<lparr>State := False\<rparr>, ev_auto_clear]\<rparr>)
   \<and> WaitForEvent 3 0 0 clock0 [] world_two = Inr (0, world_two)
   \<and> WaitForMultipleEvents 3 [1] 1 False 5 clock0 [(ETIMEDOUT, [])] world_two =
       Inr (ETIMEDOUT, - 1, world_departed)
   \<and> refs_ok {} world_departed
   \<and> SetEvent 2 1 world_departed =
       Inr (0, world_two\<lparr>events := [ev_manual_set, ev_auto_clear\<lparr>State := True\<rparr>],
                        waiters := [None],
                        trace := trace world_departed @
                                 [MutexDestroy 2 0 (Some 2), CondDestroy 2 0,
                                  CondSignal 2 (EventCV 1)]\<rparr>)
   \<and> refs_ok {}
        (world_two\<lparr>events := [ev_manual_set, ev_auto_clear\<lparr>State := True\<rparr>],
                        waiters := [None],
                        trace := trace world_departed @
                                 [MutexDestroy 2 0 (Some 2), CondDestroy 2 0,
                                  CondSignal 2 (EventCV 1)]\<rparr>)
   \<and> 0 \<notin> ({} :: nat set)
   \<and> refs_ok {0} (new_wfmo 3 False 1 world_two)
   \<and> finalize 3 0 ETIMEDOUT (new_wfmo 3 False 1 world_two) =
       Inr (ETIMEDOUT, - 1,
            world_two\<lparr>waiters := [None],
                      trace := [MutexDestroy 3 0 (Some 3), CondDestroy 3 0]\<rparr>)
   \<and> refs_ok {}
        (world_two\<lparr>waiters := [None],
                      trace := [MutexDestroy 3 0 (Some 3), CondDestroy 3 0]\<rparr>)
   \<and> take_reference 2 0 world_departed =
       Inr (world_departed\<lparr>waiters := [Some \<lparr>Mutex = Some 2, Status = - 1, StillWaiting = False,
                                              RefCount = 0, WaitAll = False\<rparr>]\<rparr>)
   \<and> get_wfmo 0 (world_departed\<lparr>waiters := [Some \<lparr>Mutex = Some 2, Status = - 1,
                     StillWaiting = False, RefCount = 0, WaitAll = False\<rparr>]\<rparr>) =
       Inr \<lparr>Mutex = Some 2, Status = - 1, StillWaiting = False, RefCount = 0, WaitAll = False\<rparr>
   \<and> \<not> StillWaiting \<lparr>Mutex = Some 2, Status = - 1, StillWaiting = False, RefCount = 0,
                        WaitAll = False\<rparr>
   \<and> drop_departed 2 0 (world_departed\<lparr>waiters := [Some \<lparr>Mutex = Some 2, Status = - 1,
                     StillWaiting = False, RefCount = 0, WaitAll = False\<rparr>]\<rparr>) =
       Inr (world_departed\<lparr>waiters := [None],
              trace := trace world_departed @ [MutexDestroy 2 0 (Some 2), CondDestroy 2 0]\<rparr>)
   \<and> (\<exists>r. rec_at world_departed 0 = Some r
          \<and> rec_at (world_departed\<lparr>waiters := [None],
                trace := trace world_departed @ [MutexDestroy 2 0 (Some 2), CondDestroy 2 0]\<rparr>) 0
              = (if RefCount r = 1 then None
                 else Some (r\<lparr>Mutex := None, RefCount := RefCount r - 1\<rparr>))
          \<and> trace (world_departed\<lparr>waiters := [None],
                trace := trace world_departed @ [MutexDestroy 2 0 (Some 2), CondDestroy 2 0]\<rparr>)
              = trace world_departed @ (if RefCount r = 1
                                      then [MutexDestroy 2 0 (Some 2), CondDestroy 2 0]
                                      else []))"
proof -
  let ?X0 = "world_two\<lparr>events := [ev_manual_set, ev_auto_clear, ev_manual_set],
                        trace := [CondBroadcast 1 (EventCV 2)]\<rparr>"
  let ?X2 = "world_two\<lparr>events := [ev_manual_set\<lparr>State := False\<rparr>, ev_auto_clear]\<rparr>"
  let ?X6 = "world_two\<lparr>events := [ev_manual_set, ev_auto_clear\<lparr>State := True\<rparr>],
                        waiters := [None],
                        trace := trace world_departed @
                                 [MutexDestroy 2 0 (Some 2), CondDestroy 2 0,
                                  CondSignal 2 (EventCV 1)]\<rparr>"
  let ?N = "new_wfmo 3 False 1 world_two"
  let ?X5 = "world_two\<lparr>waiters := [None],
                      trace := [MutexDestroy 3 0 (Some 3), CondDestroy 3 0]\<rparr>"
  let ?ra = "\<lparr>Mutex = Some 2, Status = - 1, StillWaiting = False, RefCount = 0, WaitAll = False\<rparr>"
  let ?Sa = "world_departed\<lparr>waiters := [Some ?ra]\<rparr>"
  let ?Sb = "world_departed\<lparr>waiters := [None],
              trace := trace world_departed @ [MutexDestroy 2 0 (Some 2), CondDestroy 2 0]\<rparr>"
  have w: "refs_ok {} world_two"
    by (simp add: refs_ok_def refs_inv_def rec_at_def regs_def world_two_def ev_manual_set_def
        ev_auto_clear_def)
  have c0: "CreateEvent 1 True False world_two = Inr (2, ?X0)" by code_simp
  have c2: "ResetEvent 2 0 world_two = Inr (0, ?X2)" by code_simp
  have c3: "WaitForEvent 3 0 0 clock0 [] world_two = Inr (0, world_two)" by code_simp
  have c4: "WaitForMultipleEvents 3 [1] 1 False 5 clock0 [(ETIMEDOUT, [])] world_two
              = Inr (ETIMEDOUT, - 1, world_departed)" by code_simp
  have c5: "finalize 3 0 ETIMEDOUT ?N = Inr (ETIMEDOUT, - 1, ?X5)" by code_simp
  have c6: "SetEvent 2 1 world_departed = Inr (0, ?X6)" by code_simp
  have v1: "take_reference 2 0 world_departed = Inr ?Sa" by code_simp
  have v2: "get_wfmo 0 ?Sa = Inr ?ra" by code_simp
  have v3: "\<not> StillWaiting ?ra" by simp
  have v4: "drop_departed 2 0 ?Sa = Inr ?Sb" by code_simp
  have len: "length (waiters world_two) = 0" by (simp add: world_two_def)
  note api = operations_keep_refcount [THEN conjunct1, THEN mp]
  have r0: "refs_ok {} ?X0"
    by (rule api [THEN conjunct1, THEN mp, OF w c0])
  have r2: "refs_ok {} ?X2"
    by (rule api [THEN conjunct2, THEN conjunct2, THEN conjunct1, THEN mp, OF w c2])
  have r4: "refs_ok {} world_departed"
    by (rule api [THEN conjunct2, THEN conjunct2, THEN conjunct2, THEN conjunct2, THEN conjunct1,
          THEN mp, OF w c4])
  have "refs_ok (insert (length (waiters world_two)) {}) ?N"
    by (rule api [THEN conjunct2, THEN conjunct2, THEN conjunct2, THEN conjunct2, THEN conjunct2,
          THEN conjunct2, THEN conjunct1, OF w])
  then have n': "refs_ok {0} ?N" unfolding len by simp
  have r6: "refs_ok {} ?X6"
    by (rule api [THEN conjunct2, THEN conjunct1, THEN mp, OF r4 c6])
  have e: "0 \<notin> ({} :: nat set)" by simp
  have r5: "refs_ok {} ?X5"
    by (rule operations_keep_refcount [THEN conjunct2, THEN conjunct1, THEN mp, THEN conjunct1,
          OF conjI [OF _ conjI [OF e c5]]]) (simp add: n')
  note v = operations_keep_refcount [THEN conjunct2, THEN conjunct2, THEN mp,
      OF conjI [OF v1 conjI [OF v2 conjI [OF v3 v4]]]]
  from w c0 r0 c2 r2 c3 c4 r4 c6 r6 n' c5 r5 v1 v2 v4 v show ?thesis by simp
qed

text \<open>\<open>DestroyEvent\<close> keeps the invariant when the event holds no registration, and
  breaks it when the event holds the registration of a departed waiter.\<close>

lemma DestroyEvent_refs:
  assumes "DestroyEvent t e s = Inr (result, s')" and "RegisteredWaits (events s ! e) = []"
    and "refs_ok A s"
  shows "refs_ok A s'"
proof -
  from assms(1) have e: "e < length (events s)"
    and s': "s' = put_event e ((events s ! e)\<lparr>RegisteredWaits := []\<rparr>) s"
    by (auto simp: DestroyEvent_def rbind_eq_Inr)
  have "regs s' = regs s"
    unfolding s' using e by (rule regs_put_event_same) (simp add: assms(2))
  moreover have "rec_at s' = rec_at s"
    by (simp add: s')
  ultimately have "refs_ok A s' = refs_ok A s"
    unfolding refs_ok_def by (intro refs_inv_cong)
  with assms(3) show ?thesis by simp
qed

lemma DestroyEvent_breaks_refcount:
  "refs_ok {} world_departed \<and> \<not> refs_ok {} (world_departed\<lparr>events := [ev_manual_set, ev_auto_clear]\<rparr>)"
proof -
  let ?S' = "world_departed\<lparr>events := [ev_manual_set, ev_auto_clear]\<rparr>"
  have "WaitForMultipleEvents 3 [1] 1 False 5 clock0 [(ETIMEDOUT, [])] world_two
             = Inr (ETIMEDOUT, - 1, world_departed)"
    by code_simp
  from WaitForMultipleEvents_refs [OF this refs_ok_world_two] have b: "refs_ok {} world_departed" .
  have d: "regs ?S' 0 = 0"
    by (simp add: regs_def world_two_def ev_manual_set_def ev_auto_clear_def)
  have "rec_at ?S' 0 = Some \<lparr>Mutex = None, Status = - 1, StillWaiting = False,
                                 RefCount = 1, WaitAll = False\<rparr>"
    by (simp add: rec_at_def world_departed_def)
  with d have "\<not> refs_ok {} ?S'"
    by (auto dest: refs_ok_count)
  with b show ?thesis by simp
qed


end
